theory Spec2Isabelle
  imports Complex_Main "HOL-Library.Word" "HOL-Library.Char_ord" "HOL-Library.List_Lexorder"
    "HOL-Library.AList"
begin

section \<open>The metric series: \<open>ProgressTable::MetricInfo\<close>\<close>

text \<open>
  Embedding of \<^verbatim>\<open>src/Client/ProgressTable.{h,cpp}\<close>.

  Conventions of the embedding.
  \<^item> \<^verbatim>\<open>Int64\<close> is \<open>64 word\<close>, read through \<open>sint\<close>; \<open>+\<close> and \<open>-\<close> wrap
    (signed overflow is undefined in C++; two's complement is what the machine does).
  \<^item> \<^verbatim>\<open>double\<close> is \<open>real\<close>: arithmetic is exact, and there is no rounding, infinity
    or not-a-number. Every constant the code compares against (0, 0.5, 1.0, 3.0) is
    a double exactly. A division by zero, which in C++ yields an infinity or a
    not-a-number, is not visible in the value of a HOL quotient; the theorems on
    the rate therefore state that the divisor is strictly positive.
    The code rounds. For a time \<open>t\<close> from 0 to \<open>2^53\<close> the rounded \<open>t - 1.0\<close> is still
    below \<open>t\<close> by at least 0.5, as the exact one is, and a rounded difference is at
    least 0.5 only if the exact one is positive: the order of the snapshot times is
    the same in both. At \<open>2^53 + 4\<close>, where doubles are 2 apart, and at every time
    from \<open>2^54\<close> on, the rounded \<open>t - 1.0\<close> is \<open>t\<close> itself and the exact arithmetic
    no longer tells what the code does. The elapsed seconds of a stopwatch that counts nanoseconds in 64 bits stay
    below \<open>2^35\<close>. What is proved of the order of the snapshot times is therefore
    stated for times from 0 to \<open>2^53\<close>.
  \<^item> \<^verbatim>\<open>size_t\<close> is \<open>nat\<close>: the widths are lengths of strings held in memory, far
    from \<open>2^64\<close>.
  \<^item> \<^verbatim>\<open>chassert\<close> is compiled out of release builds and has no branch in the model.
\<close>

type_synonym Int64 = "64 word"
type_synonym UInt64 = "64 word"
type_synonym double = real

text \<open>
  \<^verbatim>\<open>ProfileEvents::Type\<close>. Its declaration is outside \<^verbatim>\<open>src/\<close>; \<open>INCREMENT\<close> and
  \<open>GAUGE\<close> are the enumerators that \<^verbatim>\<open>updateValue\<close> names. \<^verbatim>\<open>updateTable\<close> obtains
  the value by a \<^verbatim>\<open>static_cast\<close> from an \<^verbatim>\<open>Int8\<close>, so other values can occur:
  \<open>UNNAMED\<close> stands for all of them (no \<^verbatim>\<open>case\<close> of the \<^verbatim>\<open>switch\<close> matches).
\<close>

datatype Type = INCREMENT | GAUGE | UNNAMED

record Snapshot =
  snap_value :: Int64
  snap_time :: double

text \<open>The member initialisers \<^verbatim>\<open>Int64 value = 0; double time = 0;\<close>.\<close>

definition Snapshot0 :: Snapshot where
  "Snapshot0 = \<lparr>snap_value = 0, snap_time = 0\<rparr>"

record MetricInfo =
  mtype :: Type
  prev_shapshot :: Snapshot
  cur_shapshot :: Snapshot
  new_snapshot :: Snapshot
  update_time :: double

text \<open>The constructor \<^verbatim>\<open>MetricInfo(ProfileEvents::Type t) : type(t)\<close>.\<close>

definition MetricInfo_new :: "Type \<Rightarrow> MetricInfo" where
  "MetricInfo_new t =
     \<lparr>mtype = t, prev_shapshot = Snapshot0, cur_shapshot = Snapshot0,
      new_snapshot = Snapshot0, update_time = 0\<rparr>"

text \<open>
  \<^verbatim>\<open>updateValue\<close>. The two differences of times and \<open>new_time - 1.0\<close> are exact here
  and rounded in the code; see the conventions above for the range of times in which
  both order the snapshot times alike.
\<close>

definition updateValue :: "MetricInfo \<Rightarrow> Int64 \<Rightarrow> double \<Rightarrow> MetricInfo" where
  "updateValue m new_value new_time =
     (let m1 = (if new_time - snap_time (new_snapshot m) \<ge> 0.5 \<or> snap_time (new_snapshot m) = 0
                then m\<lparr>prev_shapshot :=
                         \<lparr>snap_value = snap_value (new_snapshot m), snap_time = new_time - 1.0\<rparr>,
                       cur_shapshot :=
                         \<lparr>snap_value = snap_value (new_snapshot m), snap_time = new_time - 1.0\<rparr>\<rparr>
                else m);
          v = (case mtype m1 of
                 INCREMENT \<Rightarrow> snap_value (new_snapshot m1) + new_value
               | GAUGE \<Rightarrow> new_value
               | UNNAMED \<Rightarrow> snap_value (new_snapshot m1));
          m2 = m1\<lparr>new_snapshot := \<lparr>snap_value = v, snap_time = new_time\<rparr>\<rparr>;
          m3 = (if snap_time (new_snapshot m2) - snap_time (cur_shapshot m2) \<ge> 0.5
                then m2\<lparr>prev_shapshot := cur_shapshot m2, cur_shapshot := new_snapshot m2\<rparr>
                else m2)
      in m3\<lparr>update_time := new_time\<rparr>)"

definition freshness_threshold :: double where
  "freshness_threshold = 3.0"

definition isFresh :: "MetricInfo \<Rightarrow> double \<Rightarrow> bool" where
  "isFresh m now = (update_time m \<noteq> 0 \<and> now - update_time m \<le> freshness_threshold)"

text \<open>
  The difference of the two \<^verbatim>\<open>Int64\<close> values is taken in \<^verbatim>\<open>Int64\<close> and then
  converted to \<^verbatim>\<open>double\<close> for the division.
\<close>

definition calculateProgress :: "MetricInfo \<Rightarrow> double \<Rightarrow> double" where
  "calculateProgress m time_now =
     (if time_now - snap_time (new_snapshot m) \<ge> 0.5 then 0
      else real_of_int (sint (snap_value (cur_shapshot m) - snap_value (prev_shapshot m)))
             / (snap_time (cur_shapshot m) - snap_time (prev_shapshot m)))"

definition getValue :: "MetricInfo \<Rightarrow> double" where
  "getValue m = real_of_int (sint (snap_value (new_snapshot m)))"

text \<open>A series and the samples it receives, in order: the calls of \<^verbatim>\<open>updateValue\<close>.\<close>

fun apply_samples :: "MetricInfo \<Rightarrow> (Int64 \<times> double) list \<Rightarrow> MetricInfo" where
  "apply_samples m [] = m"
| "apply_samples m ((v, t) # xs) = apply_samples (updateValue m v t) xs"


section \<open>The per-host aggregate: \<open>ProgressTable::MetricInfoPerHost\<close>\<close>

text \<open>
  \<^verbatim>\<open>host_to_metric\<close> is a \<^verbatim>\<open>std::unordered_map\<close>: here an association list with
  unique keys. \<^verbatim>\<open>find\<close> is \<open>map_of\<close>; \<^verbatim>\<open>emplace\<close> of an absent key followed by
  the update through the returned iterator is \<open>AList.update\<close>, which replaces the
  entry of a present key in place. \<^verbatim>\<open>std::accumulate\<close> is a left fold over the
  entries, in the order of the list.
\<close>

type_synonym HostName = string

record MetricInfoPerHost =
  host_to_metric :: "(HostName \<times> MetricInfo) list"
  max_progress :: double

text \<open>\<^verbatim>\<open>MetricInfoPerHost{}\<close>: an empty map and \<^verbatim>\<open>double max_progress = 0\<close>.\<close>

definition MetricInfoPerHost_new :: MetricInfoPerHost where
  "MetricInfoPerHost_new = \<lparr>host_to_metric = [], max_progress = 0\<rparr>"

definition updateHostValue ::
  "MetricInfoPerHost \<Rightarrow> HostName \<Rightarrow> Type \<Rightarrow> Int64 \<Rightarrow> double \<Rightarrow> MetricInfoPerHost" where
  "updateHostValue p host t new_value new_time =
     (let m = (case map_of (host_to_metric p) host of
                 None \<Rightarrow> MetricInfo_new t
               | Some m \<Rightarrow> m)
      in p\<lparr>host_to_metric :=
             AList.update host (updateValue m new_value new_time) (host_to_metric p)\<rparr>)"

definition getSummaryValue :: "MetricInfoPerHost \<Rightarrow> double" where
  "getSummaryValue p =
     foldl (\<lambda>acc host_data. acc + getValue (snd host_data)) 0 (host_to_metric p)"

text \<open>
  \<^verbatim>\<open>getSummaryProgress\<close> returns the sum of the rates and stores the new running
  maximum: the result is the pair of the returned value and the updated object.
\<close>

definition getSummaryProgress :: "MetricInfoPerHost \<Rightarrow> double \<Rightarrow> double \<times> MetricInfoPerHost" where
  "getSummaryProgress p time_now =
     (let progress =
            foldl (\<lambda>acc host_data. acc + calculateProgress (snd host_data) time_now) 0
              (host_to_metric p)
      in (progress, p\<lparr>max_progress := max (max_progress p) progress\<rparr>))"

definition getMaxProgress :: "MetricInfoPerHost \<Rightarrow> double" where
  "getMaxProgress p = max_progress p"

definition PerHost_isFresh :: "MetricInfoPerHost \<Rightarrow> double \<Rightarrow> bool" where
  "PerHost_isFresh p now = list_ex (\<lambda>hm. isFresh (snd hm) now) (host_to_metric p)"

text \<open>
  The calls one aggregate receives over its life: \<^verbatim>\<open>updateHostValue\<close> from an ingest
  and \<^verbatim>\<open>getSummaryProgress\<close> from a render. \<open>run_calls\<close> performs them in order and
  collects the rates that the reads returned.
\<close>

datatype AggregateCall =
  Record HostName Type Int64 double
| ReadRate double

fun run_calls ::
  "MetricInfoPerHost \<Rightarrow> double list \<Rightarrow> AggregateCall list \<Rightarrow> MetricInfoPerHost \<times> double list" where
  "run_calls p rates [] = (p, rates)"
| "run_calls p rates (Record host t v now # cs) =
     run_calls (updateHostValue p host t v now) rates cs"
| "run_calls p rates (ReadRate now # cs) =
     (case getSummaryProgress p now of (r, p') \<Rightarrow> run_calls p' (rates @ [r]) cs)"

section \<open>Colours\<close>

text \<open>
  \<^verbatim>\<open>std::upper_bound\<close> on a sorted range: the position of the first element that the
  value is strictly less than, or the length of the range. The library finds it by
  bisection; on a sorted range the scan from the left finds the same position.
\<close>

fun upper_bound :: "'a::linorder list \<Rightarrow> 'a \<Rightarrow> nat" where
  "upper_bound [] v = 0"
| "upper_bound (x # xs) v = (if v < x then 0 else Suc (upper_bound xs v))"

definition ESC :: char where
  "ESC = CHR 0x1B"

definition progress_colors :: "string list" where
  "progress_colors =
     [ESC # ''[38;5;236m'', ESC # ''[38;5;250m'', ESC # ''[38;5;34m'',
      ESC # ''[38;5;226m'', ESC # ''[1;33m'']"

definition fractions :: "double list" where
  "fractions = [0.05, 0.20, 0.80, 0.95]"

definition setColorForProgress :: "double \<Rightarrow> double \<Rightarrow> string" where
  "setColorForProgress progress max_progress' =
     (if max_progress' = 0 then hd progress_colors
      else let fraction = progress / max_progress';
               dist = upper_bound fractions fraction
           in progress_colors ! dist)"

definition bytes_colors :: "string list" where
  "bytes_colors =
     [ESC # ''[38;5;236m'', ESC # ''[38;5;250m'', ESC # ''[38;5;34m'',
      ESC # ''[38;5;226m'', ESC # ''[38;5;208m'', ESC # ''[1;33m'', ESC # ''[38;5;160m'']"

text \<open>The thresholds are \<^verbatim>\<open>uint64_t\<close>; the comparison converts them to \<^verbatim>\<open>double\<close>.\<close>

definition bytes_thresholds :: "double list" where
  "bytes_thresholds =
     [1 * 2 ^ 20, 100 * 2 ^ 20, 1000 * 2 ^ 20, 10000 * 2 ^ 20, 100000 * 2 ^ 20,
      1000000 * 2 ^ 20]"

definition setColorForBytesBasedMetricsProgress :: "double \<Rightarrow> string" where
  "setColorForBytesBasedMetricsProgress progress =
     bytes_colors ! upper_bound bytes_thresholds progress"

text \<open>
  \<^verbatim>\<open>ProfileEvents::ValueType\<close>, declared outside \<^verbatim>\<open>src/\<close>: the enumerators are the
  five that the \<^verbatim>\<open>switch\<close> of \<^verbatim>\<open>formatReadableValue\<close> lists.
\<close>

datatype ValueType = Number | Bytes | Milliseconds | Microseconds | Nanoseconds

datatype error =
  LOGICAL_ERROR   \<comment> \<open>\<^verbatim>\<open>Exception(ErrorCodes::LOGICAL_ERROR, ...)\<close>\<close>
| out_of_range    \<comment> \<open>\<^verbatim>\<open>std::out_of_range\<close> of \<^verbatim>\<open>unordered_map::at\<close>\<close>

definition time_units :: "ValueType \<Rightarrow> error + double" where
  "time_units t =
     (case t of
        Milliseconds \<Rightarrow> Inr 1000
      | Microseconds \<Rightarrow> Inr 1000000
      | Nanoseconds \<Rightarrow> Inr 1000000000
      | _ \<Rightarrow> Inl LOGICAL_ERROR)"

definition setColorForTimeBasedMetricsProgress :: "ValueType \<Rightarrow> double \<Rightarrow> error + string" where
  "setColorForTimeBasedMetricsProgress value_type progress =
     (case time_units value_type of
        Inl e \<Rightarrow> Inl e
      | Inr units \<Rightarrow>
          let thresholds = [0.001 * units, 0.01 * units, 0.1 * units, 1.0 * units];
              dist = upper_bound thresholds progress
          in Inr (progress_colors ! dist))"

definition setColorForDocumentation :: string where
  "setColorForDocumentation = ESC # ''[38;5;236m''"

section \<open>Collaborators and formatting\<close>

text \<open>
  What the file uses and does not define: the table of profile events
  (\<^verbatim>\<open>ProfileEvents::end\<close>, \<^verbatim>\<open>getName\<close>, \<^verbatim>\<open>getValueType\<close>, \<^verbatim>\<open>getDocumentation\<close>) and
  the formatters of \<^verbatim>\<open>Common/formatReadable.h\<close>. They are parameters of the model.
  The terminal width (\<^verbatim>\<open>getTerminalWidth\<close>) and the elapsed time of the stopwatch
  (\<^verbatim>\<open>watch.elapsedSeconds()\<close>) are arguments of the operations that read them.
\<close>

type_synonym Event = nat

record Collaborators =
  ProfileEvents_end :: Event
  getName :: "Event \<Rightarrow> string"
  getValueType :: "Event \<Rightarrow> ValueType"
  getDocumentation :: "Event \<Rightarrow> string"
  formatReadableQuantity :: "double \<Rightarrow> int \<Rightarrow> string"
  formatReadableSizeWithDecimalSuffix :: "double \<Rightarrow> string"
  formatReadableTime :: "double \<Rightarrow> string"

text \<open>
  The catalog: every event from 0 up to \<^verbatim>\<open>ProfileEvents::end()\<close> is entered under its
  name; \<^verbatim>\<open>emplace\<close> keeps the first event of a name. The static cache returns the same
  map on every call.
\<close>

definition getEventNameToEvent :: "Collaborators \<Rightarrow> (string \<rightharpoonup> Event)" where
  "getEventNameToEvent env =
     foldl (\<lambda>event_name_to_event event.
              if event_name_to_event (getName env event) = None
              then event_name_to_event(getName env event \<mapsto> event)
              else event_name_to_event)
       Map.empty [0..<ProfileEvents_end env]"

definition formatReadableValue :: "Collaborators \<Rightarrow> ValueType \<Rightarrow> double \<Rightarrow> string" where
  "formatReadableValue env value_type v =
     (case value_type of
        Number \<Rightarrow>
          formatReadableQuantity env v
            (if real_of_int \<lfloor>v\<rfloor> = v \<and> \<bar>v\<bar> < 1000 then 0 else 2)
      | Bytes \<Rightarrow> formatReadableSizeWithDecimalSuffix env v
      | Nanoseconds \<Rightarrow> formatReadableTime env v
      | Microseconds \<Rightarrow> formatReadableTime env (v * 1000)
      | Milliseconds \<Rightarrow> formatReadableTime env (v * 1000000))"

definition NL :: char where
  "NL = CHR 0x0A"

definition CLEAR_TO_END_OF_LINE :: string where
  "CLEAR_TO_END_OF_LINE = ESC # ''[K''"

definition CLEAR_TO_END_OF_SCREEN :: string where
  "CLEAR_TO_END_OF_SCREEN = ESC # ''[0J''"

definition RESET_COLOR :: string where
  "RESET_COLOR = ESC # ''[0m''"

definition HIDE_CURSOR :: string where
  "HIDE_CURSOR = ESC # ''[?25l''"

definition SHOW_CURSOR :: string where
  "SHOW_CURSOR = ESC # ''[?25h''"

text \<open>\<^verbatim>\<open>std::format("{}", N)\<close> of a \<^verbatim>\<open>size_t\<close>: the decimal digits.\<close>

function format_size_t :: "nat \<Rightarrow> string" where
  "format_size_t n =
     (if n < 10 then [char_of (48 + n)]
      else format_size_t (n div 10) @ [char_of (48 + n mod 10)])"
  by pat_completeness auto
termination
  by (relation "measure id") auto

declare format_size_t.simps [simp del]

definition moveUpNLines :: "nat \<Rightarrow> string" where
  "moveUpNLines N = ESC # ''['' @ format_size_t N @ ''A''"

text \<open>The output stream is the string written so far; a write appends to it.\<close>

definition writeWithWidth :: "string \<Rightarrow> string \<Rightarrow> nat \<Rightarrow> string" where
  "writeWithWidth out s width =
     (if length s \<ge> width then out @ s @ '' ''
      else out @ s @ replicate (width - length s) CHR '' '')"

text \<open>The ellipsis is the three bytes of U+2026 in UTF-8.\<close>

definition ellipsis :: string where
  "ellipsis = [CHR 0xE2, CHR 0x80, CHR 0xA6]"

definition writeWithWidthStrict :: "string \<Rightarrow> string \<Rightarrow> nat \<Rightarrow> string" where
  "writeWithWidthStrict out s width =
     (if length s > width then
        (if width \<le> length ellipsis then out @ take width s
         else out @ take (width - length ellipsis) s @ ellipsis)
      else out @ s)"

section \<open>The registry: \<open>ProgressTable\<close>\<close>

text \<open>
  \<^verbatim>\<open>metrics\<close> is a \<^verbatim>\<open>std::list\<close> and \<^verbatim>\<open>metrics_iterators\<close> maps a name to an iterator
  into it. An iterator of a list is the address of a node and stays valid while the
  node is moved. Each element of the model's list therefore carries the address of its
  node, and \<^verbatim>\<open>metrics_iterators\<close> maps names to addresses. \<open>nodes_allocated\<close> counts
  the nodes created so far; a new node takes that number as its address, which no
  live node has.
\<close>

type_synonym MetricName = string
type_synonym Metric = "MetricName \<times> MetricInfoPerHost"
type_synonym iterator = nat

record ProgressTable =
  metrics :: "(iterator \<times> Metric) list"
  metrics_iterators :: "MetricName \<rightharpoonup> iterator"
  column_event_name_width :: nat
  nodes_allocated :: nat

definition COLUMN_EVENT_NAME :: string where
  "COLUMN_EVENT_NAME = ''Event name''"

definition COLUMN_VALUE :: string where
  "COLUMN_VALUE = ''Value''"

definition COLUMN_PROGRESS :: string where
  "COLUMN_PROGRESS = ''Progress''"

definition COLUMN_DOCUMENTATION_NAME :: string where
  "COLUMN_DOCUMENTATION_NAME = ''Documentation''"

definition COLUMN_VALUE_WIDTH :: nat where
  "COLUMN_VALUE_WIDTH = 20"

definition COLUMN_PROGRESS_WIDTH :: nat where
  "COLUMN_PROGRESS_WIDTH = 20"

definition COLUMN_DOCUMENTATION_MIN_WIDTH :: nat where
  "COLUMN_DOCUMENTATION_MIN_WIDTH = length COLUMN_DOCUMENTATION_NAME"

text \<open>A table as constructed: no metrics and \<^verbatim>\<open>column_event_name_width = 20\<close>.\<close>

definition ProgressTable_new :: ProgressTable where
  "ProgressTable_new =
     \<lparr>metrics = [], metrics_iterators = Map.empty, column_event_name_width = 20,
      nodes_allocated = 0\<rparr>"

text \<open>
  A block of profile events: one row per index, with the columns \<^verbatim>\<open>thread_id\<close>,
  \<^verbatim>\<open>name\<close>, \<^verbatim>\<open>host_name\<close>, \<^verbatim>\<open>value\<close> and \<^verbatim>\<open>type\<close> at their declared types (a
  block with another layout makes \<^verbatim>\<open>typeid_cast\<close> throw before anything is read).
\<close>

record Row =
  row_thread_id :: UInt64
  row_name :: string
  row_host_name :: string
  row_value :: Int64
  row_type :: Type

type_synonym Block = "Row list"

definition THREAD_GROUP_ID :: UInt64 where
  "THREAD_GROUP_ID = 0"

text \<open>The first loop of \<^verbatim>\<open>updateTable\<close>: the rows of thread id 0, each with its index.\<close>

definition name_and_row_num_list :: "Block \<Rightarrow> (string \<times> nat) list" where
  "name_and_row_num_list block =
     map (\<lambda>row_num. (row_name (block ! row_num), row_num))
       (filter (\<lambda>row_num. row_thread_id (block ! row_num) = THREAD_GROUP_ID)
          [0..<length block])"

text \<open>
  The comparator given to \<^verbatim>\<open>std::sort\<close>: names descending (\<^verbatim>\<open>std::string\<close> compares
  bytes lexicographically, as the order on \<open>string\<close> does), then row numbers
  ascending. The row numbers are distinct, so the comparator is a strict total order
  on the list and the sorted list is unique: insertion sort computes it (lemma
  \<open>sort_by_name_row_less_unique\<close>).
\<close>

definition name_row_less :: "string \<times> nat \<Rightarrow> string \<times> nat \<Rightarrow> bool" where
  "name_row_less a b = (if fst a \<noteq> fst b then fst a > fst b else snd a < snd b)"

fun insort_by :: "('a \<Rightarrow> 'a \<Rightarrow> bool) \<Rightarrow> 'a \<Rightarrow> 'a list \<Rightarrow> 'a list" where
  "insort_by lt x [] = [x]"
| "insort_by lt x (y # ys) = (if lt y x then y # insort_by lt x ys else x # y # ys)"

definition sort_by :: "('a \<Rightarrow> 'a \<Rightarrow> bool) \<Rightarrow> 'a list \<Rightarrow> 'a list" where
  "sort_by lt xs = foldr (insort_by lt) xs []"

text \<open>
  \<^verbatim>\<open>metrics.splice(metrics.begin(), metrics, it)\<close>: the node at address \<open>it\<close> moves to
  the front, the others keep their order.
\<close>

definition splice_to_front :: "(iterator \<times> Metric) list \<Rightarrow> iterator \<Rightarrow> (iterator \<times> Metric) list" where
  "splice_to_front ms it = filter (\<lambda>nd. fst nd = it) ms @ filter (\<lambda>nd. fst nd \<noteq> it) ms"

text \<open>
  \<^verbatim>\<open>metrics.front().second.updateHostValue(...)\<close>. The list is never empty here: a node
  was just inserted or moved to the front.
\<close>

definition update_front ::
  "(iterator \<times> Metric) list \<Rightarrow> HostName \<Rightarrow> Type \<Rightarrow> Int64 \<Rightarrow> double \<Rightarrow> (iterator \<times> Metric) list" where
  "update_front ms host_name t v time_now =
     (case ms of
        [] \<Rightarrow> []
      | (it, (name, per_host_info)) # rest \<Rightarrow>
          (it, (name, updateHostValue per_host_info host_name t v time_now)) # rest)"

text \<open>
  The lookup in \<^verbatim>\<open>metrics_iterators\<close> and what follows it: a name that is not there
  gets a new node at the front and an iterator to it; the node of a name that is
  there is spliced to the front.
\<close>

definition promote :: "ProgressTable \<Rightarrow> MetricName \<Rightarrow> ProgressTable" where
  "promote st name =
     (case metrics_iterators st name of
        None \<Rightarrow>
          st\<lparr>metrics := (nodes_allocated st, (name, MetricInfoPerHost_new)) # metrics st,
             metrics_iterators := (metrics_iterators st)(name \<mapsto> nodes_allocated st),
             nodes_allocated := Suc (nodes_allocated st)\<rparr>
      | Some it \<Rightarrow> st\<lparr>metrics := splice_to_front (metrics st) it\<rparr>)"

text \<open>
  The body of the second loop of \<^verbatim>\<open>updateTable\<close>, on the table and the local
  \<^verbatim>\<open>max_event_name_width\<close>. Each \<^verbatim>\<open>continue\<close> returns both as they are.
\<close>

definition updateTable_row ::
  "Collaborators \<Rightarrow> Block \<Rightarrow> double \<Rightarrow> ProgressTable \<times> nat \<Rightarrow> string \<times> nat \<Rightarrow> ProgressTable \<times> nat" where
  "updateTable_row env block time_now s name_row =
     (case s of (st, max_event_name_width) \<Rightarrow>
      case name_row of (name, row_num) \<Rightarrow>
        if row_thread_id (block ! row_num) \<noteq> THREAD_GROUP_ID then s
        else if getEventNameToEvent env name = None then s
        else if row_value (block ! row_num) = 0 then s
        else
          let st1 = promote st name;
              st2 = st1\<lparr>metrics :=
                      update_front (metrics st1) (row_host_name (block ! row_num))
                        (row_type (block ! row_num)) (row_value (block ! row_num)) time_now\<rparr>
          in (st2, max max_event_name_width (length name)))"

definition updateTable :: "Collaborators \<Rightarrow> ProgressTable \<Rightarrow> Block \<Rightarrow> double \<Rightarrow> ProgressTable" where
  "updateTable env st block time_now =
     (case foldl (updateTable_row env block time_now) (st, length COLUMN_EVENT_NAME)
             (sort_by name_row_less (name_and_row_num_list block)) of
        (st', max_event_name_width) \<Rightarrow>
          st'\<lparr>column_event_name_width := max_event_name_width + 1\<rparr>)"

text \<open>\<^verbatim>\<open>resetTable\<close>; the restart of the stopwatch is the caller's next elapsed time.\<close>

definition resetTable :: "ProgressTable \<Rightarrow> ProgressTable" where
  "resetTable st = st\<lparr>metrics := [], metrics_iterators := Map.empty\<rparr>"

definition getFreshMetricsCount :: "ProgressTable \<Rightarrow> double \<Rightarrow> nat" where
  "getFreshMetricsCount st time_now =
     (let count = length (filter (\<lambda>elem. PerHost_isFresh (snd (snd elem)) time_now) (metrics st))
      in if count = 0 then 0 else count + 1)"

definition getColumnDocumentationWidth :: "ProgressTable \<Rightarrow> nat \<Rightarrow> nat" where
  "getColumnDocumentationWidth st terminal_width =
     (let fixed_columns_width =
            column_event_name_width st + COLUMN_VALUE_WIDTH + COLUMN_PROGRESS_WIDTH
      in if terminal_width < fixed_columns_width + COLUMN_DOCUMENTATION_MIN_WIDTH then 0
         else terminal_width - fixed_columns_width)"

section \<open>Rendering\<close>

text \<open>
  The colour of a rate, by the \<^verbatim>\<open>switch\<close> on the value type in \<^verbatim>\<open>writeTable\<close>.
\<close>

definition progress_color :: "ValueType \<Rightarrow> double \<Rightarrow> double \<Rightarrow> error + string" where
  "progress_color value_type progress max_progress' =
     (case value_type of
        Number \<Rightarrow> Inr (setColorForProgress progress max_progress')
      | Bytes \<Rightarrow> Inr (setColorForBytesBasedMetricsProgress progress)
      | _ \<Rightarrow> setColorForTimeBasedMetricsProgress value_type progress)"

text \<open>
  The loop of \<^verbatim>\<open>writeTable\<close> over the metrics: the bytes written and the list with
  the running maxima that \<^verbatim>\<open>getSummaryProgress\<close> stored on the way. An exception
  (\<^verbatim>\<open>at\<close> on a name outside the catalog, or the logic error of the time colours) ends
  the call; what had been written before it is not part of the result.
\<close>

fun writeTable_rows ::
  "Collaborators \<Rightarrow> nat \<Rightarrow> nat \<Rightarrow> double \<Rightarrow> (iterator \<times> Metric) list \<Rightarrow> string
     \<Rightarrow> error + (string \<times> (iterator \<times> Metric) list)" where
  "writeTable_rows env name_width col_doc_width elapsed_sec [] message = Inr (message, [])"
| "writeTable_rows env name_width col_doc_width elapsed_sec (nd # rest) message =
     (case nd of (it, (name, per_host_info)) \<Rightarrow>
        if \<not> PerHost_isFresh per_host_info elapsed_sec then
          (case writeTable_rows env name_width col_doc_width elapsed_sec rest message of
             Inl e \<Rightarrow> Inl e
           | Inr (message', rest') \<Rightarrow> Inr (message', nd # rest'))
        else
          (case getEventNameToEvent env name of
             None \<Rightarrow> Inl out_of_range
           | Some event \<Rightarrow>
               (case getSummaryProgress per_host_info elapsed_sec of
                  (progress, per_host_info') \<Rightarrow>
                    (case progress_color (getValueType env event) progress
                            (getMaxProgress per_host_info) of
                       Inl e \<Rightarrow> Inl e
                     | Inr color \<Rightarrow>
                         let m1 = writeWithWidth (message @ [NL]) name name_width;
                             m2 = writeWithWidth m1
                                    (formatReadableValue env (getValueType env event)
                                       (getSummaryValue per_host_info))
                                    COLUMN_VALUE_WIDTH;
                             m3 = writeWithWidth (m2 @ color)
                                    (formatReadableValue env (getValueType env event) progress
                                       @ ''/s'')
                                    COLUMN_PROGRESS_WIDTH;
                             m4 = (if col_doc_width \<noteq> 0
                                   then writeWithWidthStrict (m3 @ setColorForDocumentation)
                                          (getDocumentation env event) col_doc_width
                                   else m3);
                             m5 = m4 @ RESET_COLOR @ CLEAR_TO_END_OF_LINE
                         in (case writeTable_rows env name_width col_doc_width elapsed_sec rest m5 of
                               Inl e \<Rightarrow> Inl e
                             | Inr (message', rest') \<Rightarrow>
                                 Inr (message', (it, (name, per_host_info')) # rest'))))))"

definition toggle_hint :: string where
  "toggle_hint = ''Press the space key to toggle the display of the progress table.''"

text \<open>
  \<^verbatim>\<open>writeTable\<close>: the bytes written to \<^verbatim>\<open>message\<close> by the call, and the table after
  it. \<^verbatim>\<open>message.next()\<close> flushes the buffer and adds no bytes.
\<close>

definition writeTable ::
  "Collaborators \<Rightarrow> ProgressTable \<Rightarrow> nat \<Rightarrow> double \<Rightarrow> bool \<Rightarrow> bool
     \<Rightarrow> error + (string \<times> ProgressTable)" where
  "writeTable env st terminal_width elapsed_sec show_table toggle_enabled =
     (if \<not> show_table \<and> toggle_enabled then
        Inr (CLEAR_TO_END_OF_SCREEN @ HIDE_CURSOR @ [NL] @ toggle_hint @ moveUpNLines 1, st)
      else if terminal_width
                < column_event_name_width st + COLUMN_VALUE_WIDTH + COLUMN_PROGRESS_WIDTH
      then Inr ([], st)
      else if metrics st = [] then Inr ([], st)
      else
        let m1 = writeWithWidth (HIDE_CURSOR @ [NL]) COLUMN_EVENT_NAME (column_event_name_width st);
            m2 = writeWithWidth m1 COLUMN_VALUE COLUMN_VALUE_WIDTH;
            m3 = writeWithWidth m2 COLUMN_PROGRESS COLUMN_PROGRESS_WIDTH;
            col_doc_width = getColumnDocumentationWidth st terminal_width;
            m4 = (if col_doc_width \<noteq> 0
                  then writeWithWidth m3 COLUMN_DOCUMENTATION_NAME col_doc_width else m3);
            m5 = m4 @ CLEAR_TO_END_OF_LINE
        in (case writeTable_rows env (column_event_name_width st) col_doc_width elapsed_sec
                   (metrics st) m5 of
              Inl e \<Rightarrow> Inl e
            | Inr (message, ms) \<Rightarrow>
                Inr (message @ moveUpNLines (getFreshMetricsCount (st\<lparr>metrics := ms\<rparr>) elapsed_sec),
                     st\<lparr>metrics := ms\<rparr>)))"

text \<open>The loop of \<^verbatim>\<open>writeFinalTable\<close>: one line per metric, fresh or not.\<close>

fun writeFinalTable_rows ::
  "Collaborators \<Rightarrow> nat \<Rightarrow> (iterator \<times> Metric) list \<Rightarrow> string \<Rightarrow> error + string" where
  "writeFinalTable_rows env name_width [] out = Inr out"
| "writeFinalTable_rows env name_width (nd # rest) out =
     (case nd of (it, (name, per_host_info)) \<Rightarrow>
        (case getEventNameToEvent env name of
           None \<Rightarrow> Inl out_of_range
         | Some event \<Rightarrow>
             writeFinalTable_rows env name_width rest
               (writeWithWidth (writeWithWidth (out @ [NL]) name name_width)
                  (formatReadableValue env (getValueType env event)
                     (getSummaryValue per_host_info))
                  COLUMN_VALUE_WIDTH)))"

text \<open>\<^verbatim>\<open>writeFinalTable\<close>: the bytes written to \<^verbatim>\<open>output_stream\<close>.\<close>

definition writeFinalTable :: "Collaborators \<Rightarrow> ProgressTable \<Rightarrow> nat \<Rightarrow> error + string" where
  "writeFinalTable env st terminal_width =
     (if terminal_width < column_event_name_width st + COLUMN_VALUE_WIDTH then Inr []
      else if metrics st = [] then Inr []
      else
        let o1 = writeWithWidth [NL] COLUMN_EVENT_NAME (column_event_name_width st);
            o2 = writeWithWidth o1 COLUMN_VALUE COLUMN_VALUE_WIDTH
        in writeFinalTable_rows env (column_event_name_width st) (metrics st) o2)"

section \<open>Vocabulary of the properties\<close>

text \<open>
  A row is accepted when none of the three \<^verbatim>\<open>continue\<close> of \<^verbatim>\<open>updateTable\<close> skips it:
  its thread id is \<^verbatim>\<open>THREAD_GROUP_ID\<close>, its name is in the catalog and its value is
  not 0.
\<close>

definition accepted :: "Collaborators \<Rightarrow> Row \<Rightarrow> bool" where
  "accepted env r \<longleftrightarrow>
     row_thread_id r = THREAD_GROUP_ID
     \<and> getEventNameToEvent env (row_name r) \<noteq> None
     \<and> row_value r \<noteq> 0"

definition accepted_names :: "Collaborators \<Rightarrow> Block \<Rightarrow> MetricName list" where
  "accepted_names env block = map row_name (filter (accepted env) block)"

text \<open>The names of the registry, front to back, and the aggregate stored under a name.\<close>

definition registry_names :: "ProgressTable \<Rightarrow> MetricName list" where
  "registry_names st = map (\<lambda>nd. fst (snd nd)) (metrics st)"

definition lookup_metric :: "ProgressTable \<Rightarrow> MetricName \<rightharpoonup> MetricInfoPerHost" where
  "lookup_metric st = map_of (map snd (metrics st))"

text \<open>
  The consistency of the list and its index: node addresses are distinct and were
  all allocated, and \<^verbatim>\<open>metrics_iterators\<close> maps a name to an address exactly when the
  node at that address carries the name. A constructed table satisfies it and
  \<^verbatim>\<open>updateTable\<close>, \<^verbatim>\<open>resetTable\<close> and \<^verbatim>\<open>writeTable\<close> keep it (lemmas
  \<open>table_inv_new\<close>, \<open>table_inv_updateTable\<close>, \<open>table_inv_resetTable\<close> and
  \<open>table_inv_writeTable\<close>).
\<close>

definition table_inv :: "ProgressTable \<Rightarrow> bool" where
  "table_inv st \<longleftrightarrow>
     distinct (map fst (metrics st))
     \<and> (\<forall>nd \<in> set (metrics st). fst nd < nodes_allocated st)
     \<and> (\<forall>n it. metrics_iterators st n = Some it
                  \<longleftrightarrow> (\<exists>info. (it, (n, info)) \<in> set (metrics st)))"

text \<open>
  The rows that the claims call discarded: one of the three \<^verbatim>\<open>continue\<close> applies.
\<close>

definition discarded :: "Collaborators \<Rightarrow> Row \<Rightarrow> bool" where
  "discarded env r \<longleftrightarrow>
     row_thread_id r \<noteq> THREAD_GROUP_ID
     \<or> row_value r = 0
     \<or> getEventNameToEvent env (row_name r) = None"

text \<open>
  The same three tests as \<^verbatim>\<open>updateTable\<close> makes them on an entry of the sorted list,
  the names of the entries that pass them, in the order of the list, and the effect
  of a promotion on the order of the names.
\<close>

definition row_passes :: "Collaborators \<Rightarrow> Block \<Rightarrow> string \<times> nat \<Rightarrow> bool" where
  "row_passes env block p \<longleftrightarrow>
     row_thread_id (block ! snd p) = THREAD_GROUP_ID
     \<and> getEventNameToEvent env (fst p) \<noteq> None
     \<and> row_value (block ! snd p) \<noteq> 0"

definition processed_names :: "Collaborators \<Rightarrow> Block \<Rightarrow> (string \<times> nat) list \<Rightarrow> MetricName list" where
  "processed_names env block ps = map fst (filter (row_passes env block) ps)"

definition move_to_front :: "'a \<Rightarrow> 'a list \<Rightarrow> 'a list" where
  "move_to_front n xs = n # removeAll n xs"

text \<open>The order in which the loop handles rows: names descending.\<close>

definition name_greater :: "Row \<Rightarrow> Row \<Rightarrow> bool" where
  "name_greater a b \<longleftrightarrow> row_name a > row_name b"

text \<open>A sequence of ingests, each with the elapsed time at which it happens.\<close>

definition updateTable_all ::
  "Collaborators \<Rightarrow> ProgressTable \<Rightarrow> (Block \<times> double) list \<Rightarrow> ProgressTable" where
  "updateTable_all env st ingests =
     foldl (\<lambda>st' bt. updateTable env st' (fst bt) (snd bt)) st ingests"

text \<open>
  What \<^verbatim>\<open>writeFinalTable\<close> writes for the header and for one metric: a line break, the
  name padded to the name column, and the formatted sum of the hosts' values padded to
  the value column.
\<close>

definition final_header :: "nat \<Rightarrow> string" where
  "final_header name_width =
     NL # writeWithWidth [] COLUMN_EVENT_NAME name_width
       @ writeWithWidth [] COLUMN_VALUE COLUMN_VALUE_WIDTH"

definition final_row :: "Collaborators \<Rightarrow> nat \<Rightarrow> iterator \<times> Metric \<Rightarrow> string" where
  "final_row env name_width nd =
     NL # writeWithWidth [] (fst (snd nd)) name_width
       @ writeWithWidth []
           (formatReadableValue env
              (getValueType env (the (getEventNameToEvent env (fst (snd nd)))))
              (getSummaryValue (snd (snd nd))))
           COLUMN_VALUE_WIDTH"

text \<open>
  The series that the registry holds for a metric name and a host, if any.
\<close>

definition series_of :: "ProgressTable \<Rightarrow> MetricName \<Rightarrow> HostName \<Rightarrow> MetricInfo option" where
  "series_of st n h =
     (case lookup_metric st n of None \<Rightarrow> None | Some p \<Rightarrow> map_of (host_to_metric p) h)"

text \<open>
  What a series of one name and host goes through: the first accepted row creates it
  with the type of that row (\<^verbatim>\<open>host_to_metric.emplace(host, type)\<close>) and every
  accepted row, the first included, is applied with \<^verbatim>\<open>updateValue\<close> at the time of
  its ingest.
\<close>

fun feed :: "MetricInfo option \<Rightarrow> (Row \<times> double) list \<Rightarrow> MetricInfo option" where
  "feed s [] = s"
| "feed s ((r, t) # xs) =
     feed (Some (updateValue (case s of None \<Rightarrow> MetricInfo_new (row_type r) | Some m \<Rightarrow> m)
                   (row_value r) t)) xs"

text \<open>
  The accepted rows of a sequence of ingests for one name and host, each with the time
  of its ingest, in the order of arrival.
\<close>

definition samples_for ::
  "Collaborators \<Rightarrow> (Block \<times> double) list \<Rightarrow> MetricName \<Rightarrow> HostName \<Rightarrow> (Row \<times> double) list" where
  "samples_for env ingests n h =
     concat (map (\<lambda>bt. map (\<lambda>r. (r, snd bt))
                         (filter (\<lambda>r. accepted env r \<and> row_name r = n \<and> row_host_name r = h)
                            (fst bt)))
               ingests)"

text \<open>
  The host names of every aggregate are distinct, as the keys of an
  \<^verbatim>\<open>unordered_map\<close> are. A constructed table satisfies it and \<^verbatim>\<open>updateTable\<close> and
  \<^verbatim>\<open>resetTable\<close> keep it (lemmas \<open>hosts_inv_new\<close>, \<open>hosts_inv_updateTable\<close> and
  \<open>hosts_inv_resetTable\<close>).
\<close>

definition hosts_inv :: "ProgressTable \<Rightarrow> bool" where
  "hosts_inv st \<longleftrightarrow>
     (\<forall>nd \<in> set (metrics st). distinct (map fst (host_to_metric (snd (snd nd)))))"

section \<open>A small catalog for the examples\<close>

definition example_env :: Collaborators where
  "example_env =
     \<lparr>ProfileEvents_end = 3,
      getName = (\<lambda>event. if event = 0 then ''A'' else if event = 1 then ''B''
                          else ''NetworkReceiveBytes''),
      getValueType = (\<lambda>event. if event = 2 then Bytes else Number),
      getDocumentation = (\<lambda>event. ''Documentation of the event''),
      formatReadableQuantity = (\<lambda>v precision. format_size_t (nat \<lfloor>v\<rfloor>)),
      formatReadableSizeWithDecimalSuffix = (\<lambda>v. format_size_t (nat \<lfloor>v\<rfloor>) @ '' B''),
      formatReadableTime = (\<lambda>v. format_size_t (nat \<lfloor>v\<rfloor>) @ '' ns'')\<rparr>"

text \<open>A row of thread id 0 from the host \<open>localhost\<close>, of type \<open>INCREMENT\<close>.\<close>

definition example_row :: "string \<Rightarrow> Int64 \<Rightarrow> Row" where
  "example_row n v =
     \<lparr>row_thread_id = 0, row_name = n, row_host_name = ''localhost'', row_value = v,
      row_type = INCREMENT\<rparr>"

text \<open>
  Two ingests, at the times 1 and 5: at time 5 the first metric was last updated 4
  seconds ago.
\<close>

definition example_ingests :: "(Block \<times> double) list" where
  "example_ingests =
     [([example_row ''NetworkReceiveBytes'' 4096], 1), ([example_row ''B'' 3], 5)]"

text \<open>
  A batch with a zero value, an accepted row, a row of another thread and a name that
  the catalog does not have.
\<close>

definition example_block :: Block where
  "example_block =
     [example_row ''A'' 0, example_row ''B'' 5, (example_row ''A'' 7)\<lparr>row_thread_id := 9\<rparr>,
      example_row ''Unknown'' 4]"

text \<open>
  Three ingests, at the times 1, 2 and 9, with two hosts, several samples for one
  series and a gauge: at time 9 only \<open>B\<close> was updated within the last 3 seconds.
\<close>

definition example_ingests_hosts :: "(Block \<times> double) list" where
  "example_ingests_hosts =
     [([example_row ''NetworkReceiveBytes'' 4096,
        (example_row ''NetworkReceiveBytes'' 1000)\<lparr>row_host_name := ''remote''\<rparr>,
        example_row ''B'' 3,
        (example_row ''A'' 10)\<lparr>row_type := GAUGE\<rparr>], 1),
      ([example_row ''NetworkReceiveBytes'' 4, example_row ''B'' 2,
        (example_row ''A'' 3)\<lparr>row_type := GAUGE\<rparr>], 2),
      ([(example_row ''B'' 10)\<lparr>row_host_name := ''remote''\<rparr>], 9)]"

section \<open>Properties of the metric series\<close>

lemma updateValue_times_ordered:
  assumes "snap_time (new_snapshot m) = 0
           \<or> snap_time (prev_shapshot m) < snap_time (cur_shapshot m)"
  shows "snap_time (prev_shapshot (updateValue m v t))
           < snap_time (cur_shapshot (updateValue m v t))"
  using assms by (auto simp: updateValue_def Let_def)

lemma apply_samples_times_ordered:
  assumes "snap_time (prev_shapshot m) < snap_time (cur_shapshot m)"
  shows "snap_time (prev_shapshot (apply_samples m xs))
           < snap_time (cur_shapshot (apply_samples m xs))"
  using assms
proof (induction xs arbitrary: m)
  case Nil
  then show ?case by simp
next
  case (Cons x xs)
  obtain v t where x: "x = (v, t)" by (cases x)
  have "snap_time (prev_shapshot (updateValue m v t))
          < snap_time (cur_shapshot (updateValue m v t))"
    using Cons.prems by (intro updateValue_times_ordered) simp
  then show ?case
    unfolding x apply_samples.simps by (rule Cons.IH)
qed

lemma MetricInfo_new_time: "snap_time (new_snapshot (MetricInfo_new t)) = 0"
  by (simp add: MetricInfo_new_def Snapshot0_def)

text \<open>
  C1, as the code has it. A Cumulative (\<open>INCREMENT\<close>) series receives 100 at time 0 and
  150 at time 1.0. The gap of 1.0 is at least 0.5, so the second call rebases both
  windows to the total so far and then rotates: previous is \<open>{100, 0}\<close>, current is
  \<open>{250, 1.0}\<close>, because the second sample is a delta added to the total. The rate read at
  time 1.0 is 150 (a delta of 150 over a window of one second).
\<close>

theorem windowed_rate_cumulative:
  "(let m1 = updateValue (MetricInfo_new INCREMENT) 100 0;
        m2 = updateValue m1 150 1
    in 1 - snap_time (new_snapshot m1) \<ge> 0.5
       \<and> prev_shapshot m2 = \<lparr>snap_value = 100, snap_time = 0\<rparr>
       \<and> cur_shapshot m2 = \<lparr>snap_value = 250, snap_time = 1\<rparr>
       \<and> calculateProgress m2 1 = 150)"
  by (simp add: calculateProgress_def updateValue_def MetricInfo_new_def Snapshot0_def Let_def)

text \<open>
  C1, as the specification words it: the rate read at 1.0 would be about 50. It is
  not: it is 100 away from 50.
\<close>

theorem windowed_rate_not_50:
  "\<not> \<bar>calculateProgress
         (updateValue (updateValue (MetricInfo_new INCREMENT) 100 0) 150 1) 1 - 50\<bar> < 1"
  by (simp add: calculateProgress_def updateValue_def MetricInfo_new_def Snapshot0_def Let_def)

text \<open>
  C2. On a series that was constructed and has then received at least one sample, at
  times from 0 to \<open>2^53\<close> (the range in which the exact arithmetic of the model orders
  the snapshot times as the doubles of the code do; every elapsed time of the
  stopwatch is in it), the time of the current snapshot is strictly greater than the
  time of the previous one, whatever the samples were. The rate is 0 when the latest
  sample is at least 0.5 old, and otherwise the quotient of the value difference by
  that strictly positive time difference: the division is never by zero.
\<close>

theorem rate_division_well_defined:
  assumes "samples \<noteq> []"
    and "\<forall>s \<in> set samples. 0 \<le> snd s \<and> snd s \<le> 2 ^ 53"
  shows "(let m = apply_samples (MetricInfo_new t) samples;
              dv = real_of_int (sint (snap_value (cur_shapshot m) - snap_value (prev_shapshot m)));
              dt = snap_time (cur_shapshot m) - snap_time (prev_shapshot m)
          in 0 < dt
             \<and> calculateProgress m now
                 = (if now - snap_time (new_snapshot m) \<ge> 0.5 then 0 else dv / dt))"
proof -
  obtain v t0 xs where s: "samples = (v, t0) # xs"
    using assms(1) by (cases samples) auto
  have "snap_time (prev_shapshot (updateValue (MetricInfo_new t) v t0))
          < snap_time (cur_shapshot (updateValue (MetricInfo_new t) v t0))"
    by (rule updateValue_times_ordered) (simp add: MetricInfo_new_time)
  then have "snap_time (prev_shapshot (apply_samples (MetricInfo_new t) samples))
          < snap_time (cur_shapshot (apply_samples (MetricInfo_new t) samples))"
    unfolding s apply_samples.simps by (rule apply_samples_times_ordered)
  then show ?thesis
    by (simp add: Let_def calculateProgress_def)
qed

theorem rate_division_well_defined_witness:
  "[(100, 0), (150, 1), (7, 1.25)] \<noteq> ([] :: (Int64 \<times> double) list)
   \<and> list_all (\<lambda>s. 0 \<le> snd s \<and> snd s \<le> 2 ^ 53) [(100, 0), (150, 1), (7 :: Int64, 1.25 :: double)]
   \<and> (let m = apply_samples (MetricInfo_new INCREMENT) [(100, 0), (150, 1), (7, 1.25)];
          dv = real_of_int (sint (snap_value (cur_shapshot m) - snap_value (prev_shapshot m)));
          dt = snap_time (cur_shapshot m) - snap_time (prev_shapshot m)
      in 0 < dt \<and> dt = 1 \<and> dv = 150
         \<and> calculateProgress m 1.5
             = (if 1.5 - snap_time (new_snapshot m) \<ge> 0.5 then 0 else dv / dt)
         \<and> calculateProgress m 1.5 = 150)"
  using rate_division_well_defined [of "[(100, 0), (150, 1), (7, 1.25)]" INCREMENT "1.5"]
  by (simp add: calculateProgress_def updateValue_def MetricInfo_new_def Snapshot0_def Let_def)

text \<open>
  C10. A series whose only sample arrives at elapsed time exactly 0 has update time 0,
  and \<^verbatim>\<open>isFresh\<close> answers false at every \<open>now\<close>, as it does for a series that was
  never updated: an update time of 0 reads as "never updated".
\<close>

theorem isFresh_update_at_zero:
  "update_time (updateValue (MetricInfo_new t) v 0) = 0
   \<and> \<not> isFresh (updateValue (MetricInfo_new t) v 0) now
   \<and> \<not> isFresh (MetricInfo_new t) now"
  by (simp add: isFresh_def updateValue_def MetricInfo_new_def Let_def)

section \<open>Properties of the aggregate and of the colours\<close>

lemma upper_bound_count:
  "sorted xs \<Longrightarrow> upper_bound xs v = length (filter (\<lambda>b. b \<le> v) xs)"
proof (induction xs)
  case Nil
  then show ?case by simp
next
  case (Cons x xs)
  show ?case
  proof (cases "v < x")
    case True
    with Cons.prems have "\<forall>b \<in> set (x # xs). \<not> b \<le> v" by auto
    then have "filter (\<lambda>b. b \<le> v) (x # xs) = []" by (simp only: filter_empty_conv) 
    with True show ?thesis by simp
  next
    case False
    with Cons show ?thesis by simp
  qed
qed

lemma upper_bound_takeWhile: "upper_bound xs v = length (takeWhile (\<lambda>b. \<not> v < b) xs)"
  by (induction xs) auto

lemma upper_bound_le_length: "upper_bound xs v \<le> length xs"
  by (induction xs) auto

lemma upper_bound_mono: "v \<le> w \<Longrightarrow> upper_bound xs v \<le> upper_bound xs w"
  by (induction xs) auto

lemma sorted_fractions: "sorted fractions"
  by (simp add: fractions_def)

text \<open>
  C6. The count ladder. With a running maximum other than 0 the colour is the one at
  the index that counts the breakpoints \<open>0.05, 0.20, 0.80, 0.95\<close> less than or equal
  to \<open>progress / max_progress\<close>; that count is the number of leading breakpoints not
  strictly greater than the fraction, so the index of the first one strictly greater;
  it does not decrease when the fraction grows; a running maximum of 0 gives the colour
  of index 0 whatever the rate. The index is below the number of colours, and the five
  colours differ, so the colour determines the tier.
\<close>

theorem count_ladder_tier:
  "(max_progress' \<noteq> 0 \<longrightarrow>
      setColorForProgress progress max_progress'
        = progress_colors ! length (filter (\<lambda>b. b \<le> progress / max_progress') fractions))
   \<and> length (filter (\<lambda>b. b \<le> f) fractions) = length (takeWhile (\<lambda>b. \<not> f < b) fractions)
   \<and> (f \<le> g \<longrightarrow> length (filter (\<lambda>b. b \<le> f) fractions) \<le> length (filter (\<lambda>b. b \<le> g) fractions))
   \<and> setColorForProgress progress 0 = progress_colors ! 0
   \<and> length (filter (\<lambda>b. b \<le> f) fractions) < length progress_colors
   \<and> distinct progress_colors"
proof -
  have c: "upper_bound fractions x = length (filter (\<lambda>b. b \<le> x) fractions)" for x
    by (rule upper_bound_count [OF sorted_fractions])
  have 1: "max_progress' \<noteq> 0 \<longrightarrow>
      setColorForProgress progress max_progress'
        = progress_colors ! length (filter (\<lambda>b. b \<le> progress / max_progress') fractions)"
    by (simp add: setColorForProgress_def Let_def c)
  have 2: "length (filter (\<lambda>b. b \<le> f) fractions) = length (takeWhile (\<lambda>b. \<not> f < b) fractions)"
    using c [of f] by (simp add: upper_bound_takeWhile)
  have 3: "f \<le> g \<longrightarrow> length (filter (\<lambda>b. b \<le> f) fractions) \<le> length (filter (\<lambda>b. b \<le> g) fractions)"
    using upper_bound_mono [of f g fractions] by (simp add: c)
  have 4: "setColorForProgress progress 0 = progress_colors ! 0"
    by (simp add: setColorForProgress_def progress_colors_def)
  have 5: "length (filter (\<lambda>b. b \<le> f) fractions) < length progress_colors"
    using upper_bound_le_length [of fractions f] by (simp add: c fractions_def progress_colors_def)
  have 6: "distinct progress_colors"
    by (simp add: progress_colors_def)
  from 1 2 3 4 5 6 show ?thesis by blast
qed

theorem count_ladder_tier_witness:
  "setColorForProgress 50 100 = ESC # ''[38;5;34m''
  \<and> length (filter (\<lambda>b. b \<le> (50 / 100 :: real)) fractions) = 2
   \<and> length (filter (\<lambda>b. b \<le> (0.5::real)) fractions) \<le> length (filter (\<lambda>b. b \<le> 0.9) fractions)
   \<and> setColorForProgress 50 0 = ESC # ''[38;5;236m''"
  using count_ladder_tier [of 100 50 "0.5" "0.9"]
  by (simp add: fractions_def progress_colors_def)

lemma updateHostValue_max_progress: "max_progress (updateHostValue p h t v now) = max_progress p"
  by (simp add: updateHostValue_def Let_def)

lemma run_calls_max:
  "max_progress p = foldl max 0 rates \<Longrightarrow>
   max_progress (fst (run_calls p rates cs)) = foldl max 0 (snd (run_calls p rates cs))"
proof (induction p rates cs rule: run_calls.induct)
  case (1 p rates)
  then show ?case by simp
next
  case (2 p rates host t v now cs)
  then show ?case by (simp add: updateHostValue_max_progress)
next
  case (3 p rates now cs)
  then show ?case by (simp add: getSummaryProgress_def Let_def)
qed

lemma foldl_max_fold: "foldl max (a::real) xs = fold max xs a"
  by (induction xs arbitrary: a) (simp_all add: max.commute)

lemma foldl_max_Max: "foldl max (a::real) xs = Max (set (a # xs))"
  by (simp only: foldl_max_fold Max.set_eq_fold)

lemma Max_snoc: "Max (set (a # xs @ [r])) = max (Max (set (a # xs))) (r::real)"
proof -
  have "Max (set (a # xs @ [r])) = foldl max a (xs @ [r])"
    by (simp only: foldl_max_Max)
  also have "\<dots> = max (foldl max a xs) r"
    by simp
  finally show ?thesis
    by (simp only: foldl_max_Max)
qed

lemma getSummaryProgress_max_progress:
  "getSummaryProgress p now = (r, p') \<Longrightarrow> max_progress p' = max (max_progress p) r"
  by (auto simp: getSummaryProgress_def Let_def)

text \<open>
  C7, as the code has it. Let an aggregate, starting as constructed, receive any calls
  of \<^verbatim>\<open>updateHostValue\<close> and \<^verbatim>\<open>getSummaryProgress\<close>, in any order. Then
  \<^verbatim>\<open>getMaxProgress\<close> returns the maximum of 0, the value \<^verbatim>\<open>max_progress\<close> starts
  with, and of the rates computed so far. A next \<^verbatim>\<open>getSummaryProgress\<close> computing \<open>r\<close>
  leaves the maximum of the old value and \<open>r\<close>: the value read before the call does
  not include \<open>r\<close>. On any aggregate \<^verbatim>\<open>getSummaryProgress\<close> does not lower the running
  maximum, and \<^verbatim>\<open>updateHostValue\<close> leaves it as it is.
\<close>

theorem running_max_rate:
  "(case run_calls MetricInfoPerHost_new [] calls of
      (p, rates) \<Rightarrow>
        getMaxProgress p = Max (set (0 # rates))
        \<and> (case getSummaryProgress p now of
             (r, p') \<Rightarrow> getMaxProgress p' = max (getMaxProgress p) r
                        \<and> getMaxProgress p' = Max (set (0 # rates @ [r]))))
   \<and> getMaxProgress q \<le> getMaxProgress (snd (getSummaryProgress q now))
   \<and> getMaxProgress (updateHostValue q host t v now) = getMaxProgress q"
proof -
  obtain p rates where pr: "run_calls MetricInfoPerHost_new [] calls = (p, rates)"
    by (cases "run_calls MetricInfoPerHost_new [] calls")
  have "max_progress (fst (run_calls MetricInfoPerHost_new [] calls))
          = foldl max 0 (snd (run_calls MetricInfoPerHost_new [] calls))"
    by (rule run_calls_max) (simp add: MetricInfoPerHost_new_def)
  then have m: "getMaxProgress p = Max (set (0 # rates))"
    by (simp only: pr foldl_max_Max getMaxProgress_def fst_conv snd_conv)
  obtain r p' where g: "getSummaryProgress p now = (r, p')"
    by (cases "getSummaryProgress p now")
  have p': "getMaxProgress p' = max (getMaxProgress p) r"
    using getSummaryProgress_max_progress [OF g] by (simp only: getMaxProgress_def)
  have p'': "getMaxProgress p' = Max (set (0 # rates @ [r]))"
    by (simp only: Max_snoc p' m)
  have mono: "getMaxProgress q \<le> getMaxProgress (snd (getSummaryProgress q now))"
    by (simp add: getSummaryProgress_def getMaxProgress_def Let_def)
  have upd: "getMaxProgress (updateHostValue q host t v now) = getMaxProgress q"
    by (simp only: getMaxProgress_def updateHostValue_max_progress)
  from m p' p'' mono upd show ?thesis
    by (simp only: pr g prod.case simp_thms)
qed

theorem running_max_rate_witness:
  "(case run_calls MetricInfoPerHost_new []
         [Record ''h'' GAUGE 10 0, Record ''h'' GAUGE 20 1, ReadRate 1, Record ''h'' GAUGE 5 2] of
      (p, rates) \<Rightarrow>  rates = [10] \<and> 
        getMaxProgress p = 10 \<and> Max (set (0 # rates)) = 10
        \<and> (case getSummaryProgress p 2 of
             (r, p') \<Rightarrow> r = -15 \<and> getMaxProgress p' = 10))"
  using running_max_rate[where calls = "[Record ''h'' GAUGE 10 0, Record ''h'' GAUGE 20 1, ReadRate 1, Record ''h'' GAUGE 5 2]" and now = 2]
  by (simp add: getSummaryProgress_def getMaxProgress_def updateHostValue_def MetricInfoPerHost_new_def
    calculateProgress_def updateValue_def MetricInfo_new_def Snapshot0_def Let_def)

text \<open>
  C7, as the specification words it: \<^verbatim>\<open>getMaxProgress\<close> would return the maximum over
  the rates computed before. A gauge on one host goes from 20 at time 0 to 5 at time
  1; the one rate computed, at time 1, is -15. \<^verbatim>\<open>getMaxProgress\<close> then returns 0,
  which is not the maximum of the computed rates.
\<close>

theorem running_max_rate_not_max_of_rates:
  "snd (run_calls MetricInfoPerHost_new []
          [Record ''localhost'' GAUGE 20 0, Record ''localhost'' GAUGE 5 1, ReadRate 1])
     = [- 15]
   \<and> getMaxProgress
         (fst (run_calls MetricInfoPerHost_new []
            [Record ''localhost'' GAUGE 20 0, Record ''localhost'' GAUGE 5 1, ReadRate 1]))
       = 0
   \<and> getMaxProgress
         (fst (run_calls MetricInfoPerHost_new []
            [Record ''localhost'' GAUGE 20 0, Record ''localhost'' GAUGE 5 1, ReadRate 1]))
       \<noteq> Max (set (snd (run_calls MetricInfoPerHost_new []
            [Record ''localhost'' GAUGE 20 0, Record ''localhost'' GAUGE 5 1, ReadRate 1])))"
  by (simp add: getSummaryProgress_def getMaxProgress_def updateHostValue_def
      MetricInfoPerHost_new_def calculateProgress_def updateValue_def MetricInfo_new_def
      Snapshot0_def Let_def)

section \<open>Properties of the registry\<close>

lemma table_inv_names_distinct:
  assumes "table_inv st"
  shows "distinct (registry_names st)"
proof -
  have inj: "inj_on (\<lambda>nd. fst (snd nd)) (set (metrics st))"
  proof (rule inj_onI)
    fix x y assume x: "x \<in> set (metrics st)" and y: "y \<in> set (metrics st)"
      and e: "fst (snd x) = fst (snd y)"
    obtain a n i where xx: "x = (a, (n, i))" by (cases x) auto
    obtain b m j where yy: "y = (b, (m, j))" by (cases y) auto
    from e xx yy have nm: "n = m" by simp
    from assms x xx have "metrics_iterators st n = Some a"
      unfolding table_inv_def by blast
    moreover from assms y yy nm have "metrics_iterators st n = Some b"
      unfolding table_inv_def by blast
    ultimately have ab: "a = b" by simp
    from assms have "distinct (map fst (metrics st))" unfolding table_inv_def by simp
    from eq_key_imp_eq_value [OF this, of a "(n, i)" "(m, j)"] x y ab xx yy
    show "x = y" by simp
  qed
  from assms have "distinct (metrics st)"
    unfolding table_inv_def by (simp add: distinct_map)
  with inj show ?thesis
    unfolding registry_names_def by (simp add: distinct_map)
qed

lemma filter_eq_distinct:
  "distinct xs \<Longrightarrow> x \<in> set xs \<Longrightarrow> filter (\<lambda>y. y = x) xs = [x]"
  by (induction xs) (auto simp: filter_empty_conv)

lemma splice_names:
  assumes inv: "table_inv st" and it: "metrics_iterators st name = Some it"
  shows "map (\<lambda>nd. fst (snd nd)) (splice_to_front (metrics st) it)
           = name # removeAll name (registry_names st)"
proof -
  have key: "\<And>nd. nd \<in> set (metrics st) \<Longrightarrow> (fst nd = it) = (fst (snd nd) = name)"
  proof -
    fix nd assume nd: "nd \<in> set (metrics st)"
    obtain a n i where x: "nd = (a, (n, i))" by (cases nd) auto
    from inv nd x have a: "metrics_iterators st n = Some a"
      unfolding table_inv_def by blast
    show "(fst nd = it) = (fst (snd nd) = name)"
    proof
      assume "fst nd = it"
      with x have ai: "a = it" by simp
      from inv it obtain info where "(it, (name, info)) \<in> set (metrics st)"
        unfolding table_inv_def by blast
      moreover from inv have "distinct (map fst (metrics st))"
        unfolding table_inv_def by simp
      ultimately have "(n, i) = (name, info)"
        using nd x ai eq_key_imp_eq_value [of "metrics st" it "(n, i)" "(name, info)"] by simp
      with x show "fst (snd nd) = name" by simp
    next
      assume "fst (snd nd) = name"
      with x a it show "fst nd = it" by simp
    qed
  qed
  have same: "filter (\<lambda>nd. fst nd = it) (metrics st) = filter (\<lambda>nd. fst (snd nd) = name) (metrics st)"
    by (rule filter_cong) (auto simp: key)
  have others: "filter (\<lambda>nd. fst nd \<noteq> it) (metrics st) = filter (\<lambda>nd. fst (snd nd) \<noteq> name) (metrics st)"
    by (rule filter_cong) (auto simp: key)
  have d: "distinct (registry_names st)" by (rule table_inv_names_distinct [OF inv])
  from inv it obtain info where "(it, (name, info)) \<in> set (metrics st)"
    unfolding table_inv_def by blast
  then have mem: "name \<in> set (registry_names st)"
    unfolding registry_names_def by force
  have "map (\<lambda>nd. fst (snd nd)) (filter (\<lambda>nd. fst (snd nd) = name) (metrics st))
          = filter (\<lambda>n. n = name) (registry_names st)"
    unfolding registry_names_def by (simp add: filter_map comp_def)
  also have "\<dots> = [name]"
    using d mem by (rule filter_eq_distinct)
  finally have g1: "map (\<lambda>nd. fst (snd nd)) (filter (\<lambda>nd. fst (snd nd) = name) (metrics st)) = [name]" .
  have g2: "map (\<lambda>nd. fst (snd nd)) (filter (\<lambda>nd. fst (snd nd) \<noteq> name) (metrics st))
          = removeAll name (registry_names st)"
    unfolding registry_names_def by (simp add: filter_map comp_def removeAll_filter_not_eq eq_commute)
  show ?thesis
    unfolding splice_to_front_def by (simp add: same others g1 g2)
qed


lemma table_inv_new: "table_inv ProgressTable_new"
  by (simp add: table_inv_def ProgressTable_new_def)

lemma table_inv_resetTable: "table_inv (resetTable st)"
  by (simp add: table_inv_def resetTable_def)

lemma promote_names:
  assumes "table_inv st"
  shows "registry_names (promote st name) = name # removeAll name (registry_names st)"
proof (cases "metrics_iterators st name")
  case None
  with assms have "name \<notin> set (registry_names st)"
    unfolding table_inv_def registry_names_def by force
  with None show ?thesis
    by (simp add: promote_def registry_names_def)
next
  case (Some it)
  with splice_names [OF assms Some] show ?thesis
    by (simp add: promote_def registry_names_def)
qed

lemma set_splice_to_front: "set (splice_to_front ms it) = set ms"
  by (auto simp: splice_to_front_def)

lemma distinct_splice_to_front:
  "distinct (map fst ms) \<Longrightarrow> distinct (map fst (splice_to_front ms it))"
  by (auto simp: splice_to_front_def distinct_map_filter)

lemma table_inv_promote:
  assumes "table_inv st"
  shows "table_inv (promote st name)"
proof (cases "metrics_iterators st name")
  case None
  have fresh: "nodes_allocated st \<notin> fst ` set (metrics st)"
    using assms unfolding table_inv_def by auto
  have noname: "\<And>a i. (a, (name, i)) \<notin> set (metrics st)"
    using assms None unfolding table_inv_def by (metis option.distinct(1))
  have nofresh: "\<And>n i. (nodes_allocated st, (n, i)) \<notin> set (metrics st)"
    using fresh by force
  show ?thesis
    unfolding table_inv_def promote_def None
    using assms fresh noname nofresh
    by (auto simp: table_inv_def less_Suc_eq)
next
  case (Some it)
  show ?thesis
    unfolding table_inv_def promote_def Some
    using assms
    by (simp add: table_inv_def set_splice_to_front distinct_splice_to_front)
qed

lemma update_front_fst: "map fst (update_front ms h t v now) = map fst ms"
  by (auto simp: update_front_def split: list.splits)

lemma update_front_names:
  "map (\<lambda>nd. fst (snd nd)) (update_front ms h t v now) = map (\<lambda>nd. fst (snd nd)) ms"
  by (auto simp: update_front_def split: list.splits)

lemma update_front_mem:
  "(\<exists>info. (it, (n, info)) \<in> set (update_front ms h t v now))
     \<longleftrightarrow> (\<exists>info. (it, (n, info)) \<in> set ms)"
  by (cases ms) (auto simp: update_front_def)

lemma table_inv_update_front:
  assumes "table_inv st"
  shows "table_inv (st\<lparr>metrics := update_front (metrics st) h t v now\<rparr>)"
proof -
  have "fst ` set (update_front (metrics st) h t v now) = fst ` set (metrics st)"
    using update_front_fst [of "metrics st" h t v now] by (metis set_map)
  then have b: "(\<forall>nd \<in> set (update_front (metrics st) h t v now). fst nd < nodes_allocated st)
     \<longleftrightarrow> (\<forall>nd \<in> set (metrics st). fst nd < nodes_allocated st)"
    by (metis (no_types, lifting) image_iff)
  show ?thesis
    using assms unfolding table_inv_def
    by (simp add: update_front_fst update_front_mem b)
qed

lemma updateTable_row_skip:
  "\<not> row_passes env block p \<Longrightarrow> updateTable_row env block now s p = s"
  by (cases s; cases p) (auto simp: updateTable_row_def row_passes_def)

lemma updateTable_row_accept:
  assumes "row_passes env block (name, i)"
  shows "updateTable_row env block now (st, w) (name, i)
           = ((promote st name)\<lparr>metrics :=
                 update_front (metrics (promote st name)) (row_host_name (block ! i))
                   (row_type (block ! i)) (row_value (block ! i)) now\<rparr>,
              max w (length name))"
  using assms by (auto simp: updateTable_row_def row_passes_def Let_def)

lemma updateTable_row_inv:
  assumes "table_inv st"
  shows "table_inv (fst (updateTable_row env block now (st, w) p))"
proof (cases "row_passes env block p")
  case False
  with assms show ?thesis by (simp add: updateTable_row_skip)
next
  case True
  obtain name i where p: "p = (name, i)" by (cases p)
  show ?thesis
    unfolding p updateTable_row_accept [OF True [unfolded p]] fst_conv
    by (rule table_inv_update_front [OF table_inv_promote [OF assms]])
qed

lemma updateTable_row_names:
  assumes "table_inv st"
  shows "registry_names (fst (updateTable_row env block now (st, w) p))
           = (if row_passes env block p then move_to_front (fst p) (registry_names st)
              else registry_names st)"
proof (cases "row_passes env block p")
  case False
  then show ?thesis by (simp add: updateTable_row_skip)
next
  case True
  obtain name i where p: "p = (name, i)" by (cases p)
  have "registry_names (fst (updateTable_row env block now (st, w) p))
          = registry_names (promote st name)"
    unfolding p updateTable_row_accept [OF True [unfolded p]]
    by (simp add: registry_names_def update_front_names)
  with True p promote_names [OF assms, of name] show ?thesis
    by (simp add: move_to_front_def)
qed

lemma updateTable_row_width:
  "snd (updateTable_row env block now (st, w) p)
     = (if row_passes env block p then max w (length (fst p)) else w)"
  by (cases p) (simp add: updateTable_row_skip updateTable_row_accept)

lemma foldl_updateTable_row:
  assumes "table_inv st"
  shows "table_inv (fst (foldl (updateTable_row env block now) (st, w) ps))
         \<and> registry_names (fst (foldl (updateTable_row env block now) (st, w) ps))
             = foldl (\<lambda>xs n. move_to_front n xs) (registry_names st) (processed_names env block ps)
         \<and> snd (foldl (updateTable_row env block now) (st, w) ps)
             = foldl (\<lambda>w n. max w (length n)) w (processed_names env block ps)"
  using assms
proof (induction ps arbitrary: st w)
  case Nil
  then show ?case by (simp add: processed_names_def)
next
  case (Cons p ps)
  obtain st1 w1 where s1: "updateTable_row env block now (st, w) p = (st1, w1)"
    by (cases "updateTable_row env block now (st, w) p")
  have inv1: "table_inv st1"
    using updateTable_row_inv [OF Cons.prems, of env block now w p] by (simp add: s1)
  have n1: "registry_names st1
              = (if row_passes env block p then move_to_front (fst p) (registry_names st)
                 else registry_names st)"
    using updateTable_row_names [OF Cons.prems, of env block now w p] by (simp add: s1)
  have w1: "w1 = (if row_passes env block p then max w (length (fst p)) else w)"
    using updateTable_row_width [of env block now st w p] by (simp add: s1)
  from Cons.IH [OF inv1, of w1] show ?case
    by (simp add: s1 n1 w1 processed_names_def)
qed

lemma remdups_snoc: "remdups (ns @ [n]) = remdups (filter (\<lambda>x. x \<noteq> n) ns) @ [n]"
  by (induction ns) auto

lemma foldl_move_to_front:
  "foldl (\<lambda>xs n. move_to_front n xs) xs0 ns
     = rev (remdups ns) @ filter (\<lambda>x. x \<notin> set ns) xs0"
proof (induction ns rule: rev_induct)
  case Nil
  then show ?case by simp
next
  case (snoc n ns)
  have a: "remdups (ns @ [n]) = remdups (filter (\<lambda>x. x \<noteq> n) ns) @ [n]"
    by (rule remdups_snoc)
  have b: "removeAll n (remdups ns) = remdups (filter (\<lambda>x. x \<noteq> n) ns)"
    by (simp add: removeAll_filter_not_eq remdups_filter eq_commute)
  have c: "removeAll n (filter (\<lambda>x. x \<notin> set ns) xs0) = filter (\<lambda>x. x \<notin> set (ns @ [n])) xs0"
    by (auto simp: removeAll_filter_not_eq intro: filter_cong)
  have "foldl (\<lambda>xs n. move_to_front n xs) xs0 (ns @ [n])
          = move_to_front n (foldl (\<lambda>xs n. move_to_front n xs) xs0 ns)"
    by simp
  also have "\<dots> = move_to_front n (rev (remdups ns) @ filter (\<lambda>x. x \<notin> set ns) xs0)"
    by (simp only: snoc.IH)
  also have "\<dots> = n # removeAll n (rev (remdups ns) @ filter (\<lambda>x. x \<notin> set ns) xs0)"
    by (simp only: move_to_front_def)
  also have "\<dots> = n # rev (removeAll n (remdups ns)) @ removeAll n (filter (\<lambda>x. x \<notin> set ns) xs0)"
    by (simp add: removeAll_filter_not_eq rev_filter)
  also have "\<dots> = rev (remdups (ns @ [n])) @ filter (\<lambda>x. x \<notin> set (ns @ [n])) xs0"
    by (simp only: a b c rev_append rev.simps append.simps)
  finally show ?case .
qed

lemma foldl_max_length:
  "foldl (\<lambda>w n. max w (length n)) (w::nat) ns = Max (insert w (length ` set ns))"
proof -
  have f: "foldl max (a::nat) xs = fold max xs a" for a xs
    by (induction xs arbitrary: a) (simp_all add: max.commute)
  have "foldl (\<lambda>w n. max w (length n)) w ns = foldl max w (map length ns)"
    by (simp only: foldl_map)
  also have "\<dots> = Max (set (w # map length ns))"
    by (simp only: f Max.set_eq_fold)
  finally show ?thesis by simp
qed

lemma set_insort_by: "set (insort_by lt x xs) = insert x (set xs)"
  by (induction xs) auto

lemma set_sort_by: "set (sort_by lt xs) = set xs"
  by (induction xs) (simp_all add: sort_by_def set_insort_by)

lemma sorted_insort_by:
  assumes tr: "\<And>a b c. \<not> lt b a \<Longrightarrow> \<not> lt c b \<Longrightarrow> \<not> lt c a"
    and asym: "\<And>a b. lt a b \<Longrightarrow> \<not> lt b a"
    and s: "sorted_wrt (\<lambda>a b. \<not> lt b a) xs"
  shows "sorted_wrt (\<lambda>a b. \<not> lt b a) (insort_by lt x xs)"
  using s
proof (induction xs)
  case Nil
  then show ?case by simp
next
  case (Cons y ys)
  show ?case
  proof (cases "lt y x")
    case True
    with Cons asym show ?thesis by (auto simp: set_insort_by)
  next
    case False
    with Cons.prems tr show ?thesis by auto
  qed
qed

lemma sorted_sort_by:
  assumes "\<And>a b c. \<not> lt b a \<Longrightarrow> \<not> lt c b \<Longrightarrow> \<not> lt c a"
    and "\<And>a b. lt a b \<Longrightarrow> \<not> lt b a"
  shows "sorted_wrt (\<lambda>a b. \<not> lt b a) (sort_by lt xs)"
proof (induction xs)
  case Nil
  then show ?case by (simp add: sort_by_def)
next
  case (Cons x xs)
  have "sort_by lt (x # xs) = insort_by lt x (sort_by lt xs)"
    by (simp add: sort_by_def)
  with sorted_insort_by [of lt "sort_by lt xs" x, OF assms Cons.IH] show ?case
    by simp
qed

lemma name_row_less_trans:
  "\<not> name_row_less b a \<Longrightarrow> \<not> name_row_less c b \<Longrightarrow> \<not> name_row_less c a"
  by (auto simp: name_row_less_def split: if_splits)

lemma name_row_less_asym: "name_row_less a b \<Longrightarrow> \<not> name_row_less b a"
  by (auto simp: name_row_less_def split: if_splits)

lemma sorted_names_sort_by:
  "sorted_wrt (\<lambda>a b. fst a \<ge> fst b) (sort_by name_row_less xs)"
proof -
  have "sorted_wrt (\<lambda>a b. \<not> name_row_less b a) (sort_by name_row_less xs)"
    by (rule sorted_sort_by) (erule name_row_less_trans, assumption, erule name_row_less_asym)
  then show ?thesis
    by (rule sorted_wrt_mono_rel [rotated]) (auto simp: name_row_less_def split: if_splits)
qed

lemma sorted_wrt_remdups: "sorted_wrt P xs \<Longrightarrow> sorted_wrt P (remdups xs)"
  by (induction xs) auto

lemma rev_remdups_sorted:
  fixes xs :: "'a::linorder list"
  assumes "sorted_wrt (\<ge>) xs"
  shows "rev (remdups xs) = sorted_list_of_set (set xs)"
proof (rule sorted_distinct_set_unique)
  have "sorted_wrt (\<lambda>x y. y \<le> x) (remdups xs)"
    using assms by (rule sorted_wrt_remdups)
  then show "sorted (rev (remdups xs))"
    by (simp add: sorted_wrt_rev)
qed simp_all

lemma processed_names_sorted:
  "sorted_wrt (\<ge>) (processed_names env block (sort_by name_row_less xs))"
  unfolding processed_names_def sorted_wrt_map
  by (rule sorted_wrt_filter) (rule sorted_names_sort_by)

lemma set_name_and_row_num_list:
  "set (name_and_row_num_list block)
     = {(row_name (block ! i), i) | i. i < length block \<and> row_thread_id (block ! i) = THREAD_GROUP_ID}"
  by (auto simp: name_and_row_num_list_def)

lemma set_processed_names:
  "set (processed_names env block (sort_by name_row_less (name_and_row_num_list block)))
     = set (accepted_names env block)"
proof -
  have "set (processed_names env block (sort_by name_row_less (name_and_row_num_list block)))
          = fst ` {p \<in> set (name_and_row_num_list block). row_passes env block p}"
    by (simp add: processed_names_def set_sort_by)
  also have "{p \<in> set (name_and_row_num_list block). row_passes env block p}
          = {(row_name (block ! i), i) | i. i < length block \<and> accepted env (block ! i)}"
    by (auto simp: set_name_and_row_num_list row_passes_def accepted_def)
  also have "fst ` \<dots> = {row_name (block ! i) | i. i < length block \<and> accepted env (block ! i)}"
    by force
  also have "\<dots> = set (accepted_names env block)"
    by (force simp: accepted_names_def in_set_conv_nth)
  finally show ?thesis .
qed

lemma table_inv_updateTable:
  assumes "table_inv st"
  shows "table_inv (updateTable env st block now)"
proof -
  obtain st' w' where f: "foldl (updateTable_row env block now) (st, length COLUMN_EVENT_NAME)
             (sort_by name_row_less (name_and_row_num_list block)) = (st', w')"
    by (cases "foldl (updateTable_row env block now) (st, length COLUMN_EVENT_NAME)
             (sort_by name_row_less (name_and_row_num_list block))")
  from foldl_updateTable_row [OF assms, of env block now "length COLUMN_EVENT_NAME"
      "sort_by name_row_less (name_and_row_num_list block)"]
  have "table_inv st'" by (simp add: f)
  then show ?thesis
    by (simp add: updateTable_def f table_inv_def)
qed

lemma updateTable_names:
  assumes "table_inv st"
  shows "registry_names (updateTable env st block now)
           = sorted_list_of_set (set (accepted_names env block))
             @ filter (\<lambda>n. n \<notin> set (accepted_names env block)) (registry_names st)"
proof -
  let ?ps = "sort_by name_row_less (name_and_row_num_list block)"
  obtain st' w' where f: "foldl (updateTable_row env block now) (st, length COLUMN_EVENT_NAME) ?ps
        = (st', w')"
    by (cases "foldl (updateTable_row env block now) (st, length COLUMN_EVENT_NAME) ?ps")
  from foldl_updateTable_row [OF assms, of env block now "length COLUMN_EVENT_NAME" ?ps]
  have "registry_names st'
          = foldl (\<lambda>xs n. move_to_front n xs) (registry_names st) (processed_names env block ?ps)"
    by (simp add: f)
  also have "\<dots> = rev (remdups (processed_names env block ?ps))
                    @ filter (\<lambda>x. x \<notin> set (processed_names env block ?ps)) (registry_names st)"
    by (rule foldl_move_to_front)
  also have "\<dots> = sorted_list_of_set (set (accepted_names env block))
             @ filter (\<lambda>n. n \<notin> set (accepted_names env block)) (registry_names st)"
    by (simp only: rev_remdups_sorted [OF processed_names_sorted] set_processed_names)
  finally show ?thesis
    by (simp add: updateTable_def f registry_names_def)
qed

lemma updateTable_width:
  "column_event_name_width (updateTable env st block now)
     = Max (insert (length COLUMN_EVENT_NAME) (length ` set (accepted_names env block))) + 1"
proof -
  let ?ps = "sort_by name_row_less (name_and_row_num_list block)"
  have w: "snd (foldl (updateTable_row env block now) (st, w) ps)
             = foldl (\<lambda>w n. max w (length n)) w (processed_names env block ps)" for st w ps
  proof (induction ps arbitrary: st w)
    case Nil
    then show ?case by (simp add: processed_names_def)
  next
    case (Cons p ps)
    obtain st1 w1 where s1: "updateTable_row env block now (st, w) p = (st1, w1)"
      by (cases "updateTable_row env block now (st, w) p")
    have w1: "w1 = (if row_passes env block p then max w (length (fst p)) else w)"
      using updateTable_row_width [of env block now st w p] by (simp add: s1)
    from Cons.IH [of st1 w1] show ?case
      by (simp add: s1 w1 processed_names_def)
  qed
  obtain st' w' where f: "foldl (updateTable_row env block now) (st, length COLUMN_EVENT_NAME) ?ps
        = (st', w')"
    by (cases "foldl (updateTable_row env block now) (st, length COLUMN_EVENT_NAME) ?ps")
  have "w' = Max (insert (length COLUMN_EVENT_NAME) (length ` set (accepted_names env block)))"
    using w [of st "length COLUMN_EVENT_NAME" ?ps]
    by (simp only: f snd_conv foldl_max_length set_processed_names)
  then show ?thesis
    by (simp add: updateTable_def f)
qed

lemma discarded_iff: "discarded env r \<longleftrightarrow> \<not> accepted env r"
  by (auto simp: discarded_def accepted_def)

lemma promote_lookup:
  assumes inv: "table_inv st" and ne: "n \<noteq> name"
  shows "lookup_metric (promote st name) n = lookup_metric st n
         \<and> metrics_iterators (promote st name) n = metrics_iterators st n"
proof (cases "metrics_iterators st name")
  case None
  with ne show ?thesis
    by (simp add: promote_def lookup_metric_def)
next
  case (Some it)
  have d1: "distinct (map fst (map snd (metrics st)))"
    using table_inv_names_distinct [OF inv] by (simp add: registry_names_def comp_def)
  have d2: "distinct (map fst (map snd (splice_to_front (metrics st) it)))"
    using table_inv_names_distinct [OF table_inv_promote [OF inv, of name]] Some
    by (simp add: registry_names_def comp_def promote_def)
  have "set (map snd (splice_to_front (metrics st) it)) = set (map snd (metrics st))"
    by (simp add: set_splice_to_front)
  with d1 d2 have "map_of (map snd (splice_to_front (metrics st) it)) = map_of (map snd (metrics st))"
    by (simp only: map_of_inject_set)
  with Some show ?thesis
    by (simp add: promote_def lookup_metric_def)
qed

lemma update_front_lookup:
  assumes "registry_names st = name # rest" and "n \<noteq> name"
  shows "lookup_metric (st\<lparr>metrics := update_front (metrics st) h t v now\<rparr>) n = lookup_metric st n"
proof -
  from assms(1) obtain a i ms where "metrics st = (a, (name, i)) # ms"
    unfolding registry_names_def by (cases "metrics st") auto
  with assms(2) show ?thesis
    by (simp add: lookup_metric_def update_front_def)
qed

lemma updateTable_row_lookup:
  assumes inv: "table_inv st" and ne: "row_passes env block p \<longrightarrow> fst p \<noteq> n"
  shows "lookup_metric (fst (updateTable_row env block now (st, w) p)) n = lookup_metric st n
         \<and> metrics_iterators (fst (updateTable_row env block now (st, w) p)) n
             = metrics_iterators st n"
proof (cases "row_passes env block p")
  case False
  then show ?thesis by (simp add: updateTable_row_skip)
next
  case True
  obtain name i where p: "p = (name, i)" by (cases p)
  from True ne p have nn: "n \<noteq> name" by auto
  have names: "registry_names (promote st name) = name # removeAll name (registry_names st)"
    by (rule promote_names [OF inv])
  show ?thesis
    unfolding p updateTable_row_accept [OF True [unfolded p]] fst_conv
    using update_front_lookup [OF names nn] promote_lookup [OF inv nn]
    by simp
qed

lemma foldl_updateTable_row_lookup:
  assumes "table_inv st" and "n \<notin> set (processed_names env block ps)"
  shows "lookup_metric (fst (foldl (updateTable_row env block now) (st, w) ps)) n
           = lookup_metric st n
         \<and> metrics_iterators (fst (foldl (updateTable_row env block now) (st, w) ps)) n
             = metrics_iterators st n"
  using assms
proof (induction ps arbitrary: st w)
  case Nil
  then show ?case by simp
next
  case (Cons p ps)
  obtain st1 w1 where s1: "updateTable_row env block now (st, w) p = (st1, w1)"
    by (cases "updateTable_row env block now (st, w) p")
  have inv1: "table_inv st1"
    using updateTable_row_inv [OF Cons.prems(1), of env block now w p] by (simp add: s1)
  from Cons.prems(2) have ne: "row_passes env block p \<longrightarrow> fst p \<noteq> n"
    and rest: "n \<notin> set (processed_names env block ps)"
    by (auto simp: processed_names_def)
  from updateTable_row_lookup [OF Cons.prems(1) ne, of now w]
  have l1: "lookup_metric st1 n = lookup_metric st n"
    and i1: "metrics_iterators st1 n = metrics_iterators st n"
    by (simp_all add: s1)
  from Cons.IH [OF inv1 rest, of w1] show ?case
    by (simp add: s1 l1 i1)
qed

lemma updateTable_lookup:
  assumes "table_inv st" and "n \<notin> set (accepted_names env block)"
  shows "lookup_metric (updateTable env st block now) n = lookup_metric st n
         \<and> metrics_iterators (updateTable env st block now) n = metrics_iterators st n"
proof -
  let ?ps = "sort_by name_row_less (name_and_row_num_list block)"
  obtain st' w' where f: "foldl (updateTable_row env block now) (st, length COLUMN_EVENT_NAME) ?ps
        = (st', w')"
    by (cases "foldl (updateTable_row env block now) (st, length COLUMN_EVENT_NAME) ?ps")
  from assms(2) have "n \<notin> set (processed_names env block ?ps)"
    by (simp add: set_processed_names)
  from foldl_updateTable_row_lookup [OF assms(1) this, of now "length COLUMN_EVENT_NAME"]
  show ?thesis
    by (simp add: updateTable_def f lookup_metric_def)
qed

lemma foldl_updateTable_row_skip:
  "(\<And>p. p \<in> set ps \<Longrightarrow> \<not> row_passes env block p)
     \<Longrightarrow> foldl (updateTable_row env block now) s ps = s"
  by (induction ps arbitrary: s) (simp_all add: updateTable_row_skip)

lemma updateTable_all_discarded:
  assumes "accepted_names env block = []"
  shows "updateTable env st block now
           = st\<lparr>column_event_name_width := length COLUMN_EVENT_NAME + 1\<rparr>"
proof -
  let ?ps = "sort_by name_row_less (name_and_row_num_list block)"
  have "processed_names env block ?ps = []"
    using set_processed_names [of env block] assms by simp
  then have "\<And>p. p \<in> set ?ps \<Longrightarrow> \<not> row_passes env block p"
    by (auto simp: processed_names_def filter_empty_conv)
  then have "foldl (updateTable_row env block now) (st, length COLUMN_EVENT_NAME) ?ps
               = (st, length COLUMN_EVENT_NAME)"
    by (rule foldl_updateTable_row_skip)
  then show ?thesis
    by (simp add: updateTable_def)
qed

lemma distinct_insort_by: "distinct (insort_by lt x xs) \<longleftrightarrow> x \<notin> set xs \<and> distinct xs"
  by (induction xs) (auto simp: set_insort_by)

lemma distinct_sort_by: "distinct (sort_by lt xs) \<longleftrightarrow> distinct xs"
  by (induction xs) (simp_all add: sort_by_def distinct_insort_by set_sort_by [unfolded sort_by_def])

lemma strict_sorted_unique:
  assumes asym: "\<And>a b. lt a b \<Longrightarrow> \<not> lt b a"
    and "sorted_wrt lt xs" and "sorted_wrt lt ys" and "set xs = set ys"
  shows "xs = ys"
  using assms(2-)
proof (induction xs arbitrary: ys)
  case Nil
  then show ?case by simp
next
  case (Cons x xs)
  from Cons.prems(3) obtain y ys' where ys: "ys = y # ys'"
    by (cases ys) auto
  have irrefl: "\<not> lt a a" for a using asym [of a a] by blast
  have xy: "x = y"
  proof (rule ccontr)
    assume ne: "x \<noteq> y"
    with Cons.prems(3) ys have "x \<in> set ys'" and "y \<in> set xs" by auto
    with Cons.prems(1,2) ys have "lt y x" and "lt x y" by auto
    with asym show False by blast
  qed
  from Cons.prems(1) irrefl have "x \<notin> set xs" by auto
  moreover from Cons.prems(2) ys irrefl have "y \<notin> set ys'" by auto
  ultimately have "set xs = set ys'"
    using Cons.prems(3) ys xy by auto
  with Cons.IH [of ys'] Cons.prems(1,2) ys xy show ?case by simp
qed

lemma distinct_name_and_row_num_list: "distinct (name_and_row_num_list block)"
  by (simp add: name_and_row_num_list_def distinct_map inj_on_def)

lemma sorted_wrt_distinct_strict:
  assumes "\<And>a b. P a b \<Longrightarrow> a \<noteq> b \<Longrightarrow> Q a b"
  shows "sorted_wrt P xs \<Longrightarrow> distinct xs \<Longrightarrow> sorted_wrt Q xs"
  using assms by (induction xs) auto

lemma name_row_less_total: "\<not> name_row_less b a \<Longrightarrow> a \<noteq> b \<Longrightarrow> name_row_less a b"
  by (cases a; cases b) (auto simp: name_row_less_def split: if_splits)

lemma sort_by_name_row_less_unique:
  assumes "sorted_wrt name_row_less ys" and "set ys = set xs" and "distinct xs"
  shows "ys = sort_by name_row_less xs"
proof (rule strict_sorted_unique [where lt = name_row_less])
  show "\<And>a b. name_row_less a b \<Longrightarrow> \<not> name_row_less b a"
    by (rule name_row_less_asym)
  show "sorted_wrt name_row_less ys" by fact
  have "sorted_wrt (\<lambda>a b. \<not> name_row_less b a) (sort_by name_row_less xs)"
    by (rule sorted_sort_by) (erule name_row_less_trans, assumption, erule name_row_less_asym)
  moreover have "distinct (sort_by name_row_less xs)"
    using assms(3) by (simp add: distinct_sort_by)
  ultimately show "sorted_wrt name_row_less (sort_by name_row_less xs)"
    by (rule sorted_wrt_distinct_strict [rotated]) (rule name_row_less_total)
  show "set ys = set (sort_by name_row_less xs)"
    by (simp add: set_sort_by assms(2))
qed

lemma insort_by_front:
  "(\<And>y. y \<in> set ys \<Longrightarrow> \<not> lt y x) \<Longrightarrow> insort_by lt x ys = x # ys"
  by (cases ys) auto

lemma filter_insort_by:
  assumes tr: "\<And>a b c. \<not> lt b a \<Longrightarrow> \<not> lt c b \<Longrightarrow> \<not> lt c a"
    and s: "sorted_wrt (\<lambda>a b. \<not> lt b a) ys"
  shows "filter P (insort_by lt x ys)
           = (if P x then insort_by lt x (filter P ys) else filter P ys)"
  using s
proof (induction ys)
  case Nil
  then show ?case by simp
next
  case (Cons y ys)
  show ?case
  proof (cases "lt y x")
    case True
    with Cons show ?thesis by simp
  next
    case False
    have "\<not> lt z x" if "z \<in> set (filter P (y # ys))" for z
    proof (cases "z = y")
      case True
      with False show ?thesis by simp
    next
      case ne: False
      with that Cons.prems have "\<not> lt z y" by (auto split: if_splits)
      from tr [OF False this] show ?thesis .
    qed
    then have "insort_by lt x (filter P (y # ys)) = x # filter P (y # ys)"
      by (rule insort_by_front)
    with False show ?thesis by simp
  qed
qed

lemma filter_sort_by:
  assumes tr: "\<And>a b c. \<not> lt b a \<Longrightarrow> \<not> lt c b \<Longrightarrow> \<not> lt c a"
    and asym: "\<And>a b. lt a b \<Longrightarrow> \<not> lt b a"
  shows "filter P (sort_by lt xs) = sort_by lt (filter P xs)"
proof (induction xs)
  case Nil
  then show ?case by (simp add: sort_by_def)
next
  case (Cons x xs)
  have s: "sorted_wrt (\<lambda>a b. \<not> lt b a) (sort_by lt xs)"
    by (rule sorted_sort_by [OF tr asym])
  have "filter P (sort_by lt (x # xs)) = filter P (insort_by lt x (sort_by lt xs))"
    by (simp add: sort_by_def)
  also have "\<dots> = (if P x then insort_by lt x (filter P (sort_by lt xs))
                     else filter P (sort_by lt xs))"
    by (rule filter_insort_by [OF tr s])
  also have "\<dots> = (if P x then insort_by lt x (sort_by lt (filter P xs))
                     else sort_by lt (filter P xs))"
    by (simp only: Cons.IH)
  also have "\<dots> = sort_by lt (filter P (x # xs))"
    by (simp add: sort_by_def)
  finally show ?case .
qed

lemma filter_sort_by_name:
  "filter P (sort_by name_greater rs) = sort_by name_greater (filter P rs)"
  by (rule filter_sort_by) (auto simp: name_greater_def)

lemma insort_rows:
  assumes "\<And>y. y \<in> set ys \<Longrightarrow> i < snd y \<and> fst y = row_name (block ! snd y)"
  shows "map (\<lambda>p. block ! snd p) (insort_by name_row_less (row_name (block ! i), i) ys)
           = insort_by name_greater (block ! i) (map (\<lambda>p. block ! snd p) ys)"
  using assms
proof (induction ys)
  case Nil
  then show ?case by simp
next
  case (Cons y ys)
  from Cons.prems [of y] have y: "i < snd y" "fst y = row_name (block ! snd y)"
    by simp_all
  then have c: "name_row_less y (row_name (block ! i), i) = name_greater (block ! snd y) (block ! i)"
    by (auto simp: name_row_less_def name_greater_def)
  have "map (\<lambda>p. block ! snd p) (insort_by name_row_less (row_name (block ! i), i) ys)
           = insort_by name_greater (block ! i) (map (\<lambda>p. block ! snd p) ys)"
    by (rule Cons.IH) (simp add: Cons.prems)
  with c show ?case by simp
qed

lemma sort_rows:
  assumes "sorted_wrt (<) is"
  shows "map (\<lambda>p. block ! snd p)
           (sort_by name_row_less (map (\<lambda>i. (row_name (block ! i), i)) is))
         = sort_by name_greater (map (\<lambda>i. block ! i) is)"
  using assms
proof (induction "is")
  case Nil
  then show ?case by (simp add: sort_by_def)
next
  case (Cons i "is")
  let ?g = "\<lambda>i. (row_name (block ! i), i)"
  have "\<And>y. y \<in> set (sort_by name_row_less (map ?g is))
          \<Longrightarrow> i < snd y \<and> fst y = row_name (block ! snd y)"
    using Cons.prems by (auto simp: set_sort_by)
  from insort_rows [of "sort_by name_row_less (map ?g is)" i block, OF this] Cons
  show ?case
    by (simp add: sort_by_def)
qed

lemma processed_rows:
  "map (\<lambda>p. block ! snd p) (sort_by name_row_less (name_and_row_num_list block))
     = sort_by name_greater (filter (\<lambda>r. row_thread_id r = THREAD_GROUP_ID) block)"
proof -
  let ?is = "filter (\<lambda>i. row_thread_id (block ! i) = THREAD_GROUP_ID) [0..<length block]"
  have "sorted_wrt (<) ?is"
    by (rule sorted_wrt_filter) simp
  from sort_rows [OF this, of block]
  have "map (\<lambda>p. block ! snd p) (sort_by name_row_less (name_and_row_num_list block))
          = sort_by name_greater (map (\<lambda>i. block ! i) ?is)"
    by (simp add: name_and_row_num_list_def)
  also have "map (\<lambda>i. block ! i) ?is
          = filter (\<lambda>r. row_thread_id r = THREAD_GROUP_ID) (map (\<lambda>i. block ! i) [0..<length block])"
    by (simp add: filter_map comp_def)
  also have "\<dots> = filter (\<lambda>r. row_thread_id r = THREAD_GROUP_ID) block"
    by (simp only: map_nth)
  finally show ?thesis .
qed

lemma updateTable_row_single:
  "updateTable_row env block now s (row_name (block ! i), i)
     = updateTable_row env [block ! i] now s (row_name (block ! i), 0)"
  by (cases s) (simp add: updateTable_row_def)

lemma foldl_updateTable_row_rows:
  assumes "\<And>p. p \<in> set ps \<Longrightarrow> fst p = row_name (block ! snd p)"
  shows "foldl (updateTable_row env block now) s ps
           = foldl (\<lambda>s r. updateTable_row env [r] now s (row_name r, 0)) s
               (map (\<lambda>p. block ! snd p) ps)"
  using assms
proof (induction ps arbitrary: s)
  case Nil
  then show ?case by simp
next
  case (Cons p ps)
  obtain n i where p: "p = (n, i)" by (cases p)
  with Cons.prems [of p] have n: "n = row_name (block ! i)" by simp
  have "updateTable_row env block now s p
          = updateTable_row env [block ! i] now s (row_name (block ! i), 0)"
    unfolding p n by (rule updateTable_row_single)
  with Cons show ?case by (simp add: p)
qed

lemma foldl_rows_accepted:
  "foldl (\<lambda>s r. updateTable_row env [r] now s (row_name r, 0)) s rows
     = foldl (\<lambda>s r. updateTable_row env [r] now s (row_name r, 0)) s
         (filter (accepted env) rows)"
proof (induction rows arbitrary: s)
  case Nil
  then show ?case by simp
next
  case (Cons r rows)
  have "\<not> accepted env r \<Longrightarrow> updateTable_row env [r] now s (row_name r, 0) = s"
    by (rule updateTable_row_skip) (simp add: row_passes_def accepted_def)
  with Cons show ?case by simp
qed

lemma updateTable_by_rows:
  "updateTable env st block now
     = (case foldl (\<lambda>s r. updateTable_row env [r] now s (row_name r, 0))
               (st, length COLUMN_EVENT_NAME)
               (sort_by name_greater (filter (accepted env) block)) of
          (st', max_event_name_width) \<Rightarrow>
            st'\<lparr>column_event_name_width := max_event_name_width + 1\<rparr>)"
proof -
  let ?ps = "sort_by name_row_less (name_and_row_num_list block)"
  let ?f = "\<lambda>s r. updateTable_row env [r] now s (row_name r, 0)"
  have wf: "\<And>p. p \<in> set ?ps \<Longrightarrow> fst p = row_name (block ! snd p)"
    by (auto simp: set_sort_by set_name_and_row_num_list)
  have a: "filter (accepted env) (filter (\<lambda>r. row_thread_id r = THREAD_GROUP_ID) block)
             = filter (accepted env) block"
    by (auto simp: accepted_def intro: filter_cong)
  have "foldl (updateTable_row env block now) (st, length COLUMN_EVENT_NAME) ?ps
          = foldl ?f (st, length COLUMN_EVENT_NAME) (map (\<lambda>p. block ! snd p) ?ps)"
    by (rule foldl_updateTable_row_rows [OF wf])
  also have "\<dots> = foldl ?f (st, length COLUMN_EVENT_NAME)
        (filter (accepted env) (map (\<lambda>p. block ! snd p) ?ps))"
    by (rule foldl_rows_accepted)
  also have "filter (accepted env) (map (\<lambda>p. block ! snd p) ?ps)
        = sort_by name_greater (filter (accepted env) block)"
    by (simp only: processed_rows filter_sort_by_name a)
  finally show ?thesis
    by (simp add: updateTable_def)
qed

lemma updateTable_filter_accepted:
  "updateTable env st (filter (accepted env) block) now = updateTable env st block now"
  by (simp add: updateTable_by_rows)

text \<open>
  C4. A row whose thread id is not \<^verbatim>\<open>THREAD_GROUP_ID\<close>, whose value is 0 or whose name
  is not in the catalog is discarded without a trace: an ingest of the batch without
  its discarded rows leaves the same table as the ingest of the whole batch. The loop
  body skips such a row and returns the table and the local width as they were. A
  batch of such rows only leaves the list of metrics and the index as they were.
  On a consistent table, if every row of the batch that carries the name \<open>n\<close> is such
  a row, then after the ingest the aggregate stored under \<open>n\<close> and the index entry of
  \<open>n\<close> are what they were: none is created and an existing one is not modified.
\<close>

theorem discarded_rows:
  "updateTable env st (filter (\<lambda>r. \<not> discarded env r) block) now = updateTable env st block now
   \<and> (discarded env (block ! row_num)
      \<longrightarrow> updateTable_row env block now s (row_name (block ! row_num), row_num) = s)
   \<and> ((\<forall>r \<in> set block. discarded env r)
      \<longrightarrow> metrics (updateTable env st block now) = metrics st
          \<and> metrics_iterators (updateTable env st block now) = metrics_iterators st)
   \<and> (table_inv st \<and> (\<forall>r \<in> set block. row_name r = n \<longrightarrow> discarded env r)
      \<longrightarrow> lookup_metric (updateTable env st block now) n = lookup_metric st n
          \<and> metrics_iterators (updateTable env st block now) n = metrics_iterators st n)"
proof (intro conjI impI)
  have "(\<lambda>r. \<not> discarded env r) = accepted env"
    by (simp add: discarded_iff)
  then show "updateTable env st (filter (\<lambda>r. \<not> discarded env r) block) now
               = updateTable env st block now"
    by (simp only: updateTable_filter_accepted)
next
  assume "discarded env (block ! row_num)"
  then have "\<not> row_passes env block (row_name (block ! row_num), row_num)"
    by (auto simp: discarded_def row_passes_def)
  then show "updateTable_row env block now s (row_name (block ! row_num), row_num) = s"
    by (rule updateTable_row_skip)
next
  assume "\<forall>r \<in> set block. discarded env r"
  then have e: "accepted_names env block = []"
    by (simp add: accepted_names_def discarded_iff filter_empty_conv)
  show "metrics (updateTable env st block now) = metrics st"
    by (simp add: updateTable_all_discarded [OF e])
  show "metrics_iterators (updateTable env st block now) = metrics_iterators st"
    by (simp add: updateTable_all_discarded [OF e])
next
  assume a: "table_inv st \<and> (\<forall>r \<in> set block. row_name r = n \<longrightarrow> discarded env r)"
  then have "n \<notin> set (accepted_names env block)"
    by (auto simp: accepted_names_def discarded_iff)
  with a updateTable_lookup [of st n env block now]
  show "lookup_metric (updateTable env st block now) n = lookup_metric st n"
    and "metrics_iterators (updateTable env st block now) n = metrics_iterators st n"
    by simp_all
qed

section \<open>Properties of ingest and rendering\<close>

lemma example_catalog:
  "getEventNameToEvent example_env = [''A'' \<mapsto> 0, ''B'' \<mapsto> 1, ''NetworkReceiveBytes'' \<mapsto> 2]"
  by (simp add: getEventNameToEvent_def example_env_def upt_rec fun_eq_iff)

lemma accepted_example_row:
  "accepted example_env (example_row n v)
     \<longleftrightarrow> n \<in> {''A'', ''B'', ''NetworkReceiveBytes''} \<and> v \<noteq> 0"
  by (auto simp: accepted_def example_row_def example_catalog THREAD_GROUP_ID_def)

lemma example_row_name: "row_name (example_row n v) = n"
  by (simp add: example_row_def)

lemma registry_names_new: "registry_names ProgressTable_new = []"
  by (simp add: registry_names_def ProgressTable_new_def)

text \<open>
  C3, as the code has it. \<^verbatim>\<open>updateTable\<close> starts its local maximum at the length of
  the header \<open>Event name\<close>, which is 10, on every call, and stores the maximum plus
  one: after an ingest the width is one more than the larger of 10 and the longest
  name accepted in that batch. Neither the width before the call nor the names of
  earlier batches enter.
\<close>

theorem column_width_per_ingest:
  "column_event_name_width (updateTable env st block now)
     = Max (insert (length COLUMN_EVENT_NAME) (length ` set (accepted_names env block))) + 1
   \<and> length COLUMN_EVENT_NAME = 10"
  by (simp add: updateTable_width) (simp add: COLUMN_EVENT_NAME_def)

text \<open>
  C3, as the specification words it: the width would never shrink from one ingest to
  the next. After a batch with the 19-character name \<open>NetworkReceiveBytes\<close> the
  width is 20; after the next batch, which has only \<open>B\<close>, it is 11.
\<close>

theorem column_width_shrinks:
  "column_event_name_width
     (updateTable example_env ProgressTable_new [example_row ''NetworkReceiveBytes'' 1] 0.5) = 20
   \<and> column_event_name_width
       (updateTable example_env
          (updateTable example_env ProgressTable_new [example_row ''NetworkReceiveBytes'' 1] 0.5)
          [example_row ''B'' 1] 1) = 11
   \<and> \<not> column_event_name_width
          (updateTable example_env ProgressTable_new [example_row ''NetworkReceiveBytes'' 1] 0.5)
        \<le> column_event_name_width
            (updateTable example_env
               (updateTable example_env ProgressTable_new [example_row ''NetworkReceiveBytes'' 1] 0.5)
               [example_row ''B'' 1] 1)"
  by (simp add: updateTable_width accepted_names_def accepted_example_row COLUMN_EVENT_NAME_def
      example_row_name)

lemma accepted_names_single:
  "accepted env r \<Longrightarrow> accepted_names env [r] = [row_name r]"
  by (simp add: accepted_names_def)

lemma table_inv_updateTable_all:
  "table_inv st \<Longrightarrow> table_inv (updateTable_all env st ingests)"
  unfolding updateTable_all_def
  by (induction ingests arbitrary: st) (simp_all add: table_inv_updateTable)

text \<open>
  C5. On a consistent table, after an ingest the names accepted in the batch are at the
  front of the registry (the loop handles them in descending order, so they stand in
  ascending order), each once, the new ones among them; the names that the batch did
  not touch follow in the order they had. In particular, three ingests of one accepted
  row each, for the names \<open>a\<close>, then \<open>b\<close>, then \<open>a\<close> again, on a new table leave the
  order \<open>a, b\<close>.
\<close>

theorem recency_order:
  "(table_inv st \<longrightarrow>
      registry_names (updateTable env st block now)
        = sorted_list_of_set (set (accepted_names env block))
          @ filter (\<lambda>n. n \<notin> set (accepted_names env block)) (registry_names st))
   \<and> (accepted env ra \<and> accepted env rb \<and> accepted env ra'
       \<and> row_name ra = a \<and> row_name ra' = a \<and> row_name rb = b \<and> a \<noteq> b \<longrightarrow>
      registry_names
        (updateTable_all env ProgressTable_new [([ra], t1), ([rb], t2), ([ra'], t3)]) = [a, b])"
proof (intro conjI impI)
  assume "table_inv st"
  then show "registry_names (updateTable env st block now)
        = sorted_list_of_set (set (accepted_names env block))
          @ filter (\<lambda>n. n \<notin> set (accepted_names env block)) (registry_names st)"
    by (rule updateTable_names)
next
  assume h: "accepted env ra \<and> accepted env rb \<and> accepted env ra'
       \<and> row_name ra = a \<and> row_name ra' = a \<and> row_name rb = b \<and> a \<noteq> b"
  let ?s1 = "updateTable env ProgressTable_new [ra] t1"
  let ?s2 = "updateTable env ?s1 [rb] t2"
  let ?s3 = "updateTable env ?s2 [ra'] t3"
  from h have acc: "accepted env ra" "accepted env rb" "accepted env ra'"
    and nm: "row_name ra = a" "row_name ra' = a" "row_name rb = b" and ne: "a \<noteq> b" "b \<noteq> a"
    by auto
  have i1: "table_inv ?s1" by (rule table_inv_updateTable [OF table_inv_new])
  have i2: "table_inv ?s2" by (rule table_inv_updateTable [OF i1])
  have n1: "registry_names ?s1 = [a]"
    by (simp add: updateTable_names [OF table_inv_new] accepted_names_single acc nm
        registry_names_new)
  have n2: "registry_names ?s2 = [b, a]"
    by (simp add: updateTable_names [OF i1] accepted_names_single acc nm ne n1)
  have n3: "registry_names ?s3 = [a, b]"
    by (simp add: updateTable_names [OF i2] accepted_names_single acc nm ne n2)
  then show "registry_names
        (updateTable_all env ProgressTable_new [([ra], t1), ([rb], t2), ([ra'], t3)]) = [a, b]"
    by (simp add: updateTable_all_def)
qed

theorem recency_order_witness:
  "table_inv (updateTable example_env ProgressTable_new [example_row ''B'' 2, example_row ''A'' 1] 1)
   \<and> registry_names
       (updateTable example_env ProgressTable_new [example_row ''B'' 2, example_row ''A'' 1] 1)
       = [''A'', ''B'']
   \<and> registry_names
       (updateTable example_env
          (updateTable example_env ProgressTable_new [example_row ''B'' 2, example_row ''A'' 1] 1)
          [example_row ''B'' 3, example_row ''NetworkReceiveBytes'' 4096, example_row ''C'' 1] 2)
       = [''B'', ''NetworkReceiveBytes'', ''A'']
   \<and> registry_names
       (updateTable_all example_env ProgressTable_new
          [([example_row ''A'' 1], 1), ([example_row ''B'' 1], 2), ([example_row ''A'' 1], 3)])
       = [''A'', ''B'']"
proof -
  have inv: "table_inv ProgressTable_new" by (rule table_inv_new)
  have inv1: "table_inv (updateTable example_env ProgressTable_new
                  [example_row ''B'' 2, example_row ''A'' 1] 1)"
    by (rule table_inv_updateTable [OF inv])
  note n0 = registry_names_new
  have s: "sorted_list_of_set {''A'', ''B''} = [''A'', ''B'']"
    "sorted_list_of_set {''B'', ''NetworkReceiveBytes''} = [''B'', ''NetworkReceiveBytes'']"
    by code_simp+
  from recency_order [where st = ProgressTable_new and env = example_env
      and block = "[example_row ''B'' 2, example_row ''A'' 1]" and now = 1,
      THEN conjunct1, rule_format, OF inv]
  have n1: "registry_names
       (updateTable example_env ProgressTable_new [example_row ''B'' 2, example_row ''A'' 1] 1)
       = [''A'', ''B'']"
    by (simp add: accepted_names_def accepted_example_row n0 s insert_commute example_row_name)
  from recency_order [where st = "updateTable example_env ProgressTable_new
      [example_row ''B'' 2, example_row ''A'' 1] 1" and env = example_env
      and block = "[example_row ''B'' 3, example_row ''NetworkReceiveBytes'' 4096,
                    example_row ''C'' 1]" and now = 2,
      THEN conjunct1, rule_format, OF inv1]
  have n2: "registry_names
       (updateTable example_env
          (updateTable example_env ProgressTable_new [example_row ''B'' 2, example_row ''A'' 1] 1)
          [example_row ''B'' 3, example_row ''NetworkReceiveBytes'' 4096, example_row ''C'' 1] 2)
       = [''B'', ''NetworkReceiveBytes'', ''A'']"
    by (simp add: accepted_names_def accepted_example_row n1 s example_row_name)
  from recency_order [where env = example_env and ra = "example_row ''A'' 1"
      and rb = "example_row ''B'' 1" and ra' = "example_row ''A'' 1" and a = "''A''" and b = "''B''"
      and ?t1.0 = 1 and ?t2.0 = 2 and ?t3.0 = 3, THEN conjunct2]
  have n3: "registry_names
       (updateTable_all example_env ProgressTable_new
          [([example_row ''A'' 1], 1), ([example_row ''B'' 1], 2), ([example_row ''A'' 1], 3)])
       = [''A'', ''B'']"
    by (simp add: accepted_example_row example_row_name)
  from inv1 n1 n2 n3 show ?thesis by simp
qed

text \<open>
  C8. With \<^verbatim>\<open>show_table\<close> set, if the terminal is narrower than the name, value and
  progress columns together, or there is no metric, \<^verbatim>\<open>writeTable\<close> writes no byte and
  returns the table as it was; so it does at a width one below the sum of the three
  columns.
\<close>

theorem render_noop:
  "(terminal_width < column_event_name_width st + COLUMN_VALUE_WIDTH + COLUMN_PROGRESS_WIDTH
      \<or> metrics st = []
    \<longrightarrow> writeTable env st terminal_width elapsed_sec True toggle_enabled = Inr ([], st))
   \<and> writeTable env st (column_event_name_width st + COLUMN_VALUE_WIDTH + COLUMN_PROGRESS_WIDTH - 1)
       elapsed_sec True toggle_enabled = Inr ([], st)"
  by (auto simp: writeTable_def COLUMN_VALUE_WIDTH_def)

section \<open>Properties of the final table\<close>

lemma writeWithWidth_append: "writeWithWidth out s w = out @ writeWithWidth [] s w"
  by (simp add: writeWithWidth_def)

lemma final_header_eq:
  "writeWithWidth (writeWithWidth [NL] COLUMN_EVENT_NAME w) COLUMN_VALUE COLUMN_VALUE_WIDTH
     = final_header w"
  by (simp add: writeWithWidth_def final_header_def)

lemma final_row_eq:
  "writeWithWidth (writeWithWidth (out @ [NL]) name w) s COLUMN_VALUE_WIDTH
     = out @ NL # writeWithWidth [] name w @ writeWithWidth [] s COLUMN_VALUE_WIDTH"
  by (simp add: writeWithWidth_def)

lemma writeFinalTable_rows_all:
  assumes "\<forall>nd \<in> set ms. getEventNameToEvent env (fst (snd nd)) \<noteq> None"
  shows "writeFinalTable_rows env w ms out = Inr (out @ concat (map (final_row env w) ms))"
  using assms
proof (induction ms arbitrary: out)
  case Nil
  then show ?case by simp
next
  case (Cons nd ms)
  obtain it name info where nd: "nd = (it, (name, info))" by (cases nd) auto
  from Cons.prems nd obtain event where ev: "getEventNameToEvent env name = Some event"
    by auto
  from Cons.prems have rest: "\<forall>nd \<in> set ms. getEventNameToEvent env (fst (snd nd)) \<noteq> None"
    by simp
  show ?case
    unfolding nd writeFinalTable_rows.simps
    by (simp add: ev Cons.IH [OF rest] final_row_def final_row_eq)
qed

lemma getSummaryValue_sum:
  "getSummaryValue p
     = (\<Sum>hm\<leftarrow>host_to_metric p. real_of_int (sint (snap_value (new_snapshot (snd hm)))))"
proof -
  have "foldl (\<lambda>acc hm. acc + getValue (snd hm)) a xs
          = a + (\<Sum>hm\<leftarrow>xs. real_of_int (sint (snap_value (new_snapshot (snd hm)))))" for a xs
    by (induction xs arbitrary: a) (simp_all add: getValue_def)
  from this [of 0] show ?thesis
    by (simp add: getSummaryValue_def)
qed

lemma updateTable_names_set:
  assumes "table_inv st"
  shows "set (registry_names (updateTable env st block now))
           = set (registry_names st) \<union> set (accepted_names env block)"
  by (auto simp: updateTable_names [OF assms])

lemma updateTable_all_names_set:
  assumes "table_inv st"
  shows "set (registry_names (updateTable_all env st ingests))
           = set (registry_names st) \<union> (\<Union>bt \<in> set ingests. set (accepted_names env (fst bt)))"
  using assms
proof (induction ingests arbitrary: st)
  case Nil
  then show ?case by (simp add: updateTable_all_def)
next
  case (Cons bt ingests)
  have inv1: "table_inv (updateTable env st (fst bt) (snd bt))"
    by (rule table_inv_updateTable [OF Cons.prems])
  have "updateTable_all env st (bt # ingests)
          = updateTable_all env (updateTable env st (fst bt) (snd bt)) ingests"
    by (simp add: updateTable_all_def)
  with Cons.IH [OF inv1] updateTable_names_set [OF Cons.prems, of env "fst bt" "snd bt"]
  show ?case by auto
qed

lemma accepted_names_catalog:
  "n \<in> set (accepted_names env block) \<Longrightarrow> getEventNameToEvent env n \<noteq> None"
  by (auto simp: accepted_names_def accepted_def)

lemma updateHostValue_series:
  "map_of (host_to_metric (updateHostValue p h t v now)) h'
     = (if h' = h
        then Some (updateValue (case map_of (host_to_metric p) h of
                                  None \<Rightarrow> MetricInfo_new t | Some m \<Rightarrow> m) v now)
        else map_of (host_to_metric p) h')"
  by (simp add: updateHostValue_def Let_def update_conv')

lemma filter_addr_single:
  "distinct (map fst ms) \<Longrightarrow> (a, x) \<in> set ms \<Longrightarrow> filter (\<lambda>nd. fst nd = a) ms = [(a, x)]"
proof (induction ms)
  case Nil
  then show ?case by simp
next
  case (Cons nd ms)
  show ?case
  proof (cases "nd = (a, x)")
    case True
    with Cons.prems have "a \<notin> fst ` set ms" by auto
    then have "filter (\<lambda>nd. fst nd = a) ms = []"
      by (auto simp: filter_empty_conv)
    with True show ?thesis by simp
  next
    case False
    with Cons.prems have m: "(a, x) \<in> set ms" by auto
    then have "a \<in> fst ` set ms" by force
    with Cons.prems(1) have "fst nd \<noteq> a" by auto
    with Cons m show ?thesis by simp
  qed
qed

lemma lookup_metric_None:
  assumes "table_inv st" and "metrics_iterators st n = None"
  shows "lookup_metric st n = None"
proof -
  from assms have "\<And>a i. (a, (n, i)) \<notin> set (metrics st)"
    unfolding table_inv_def by (metis option.distinct(1))
  then have "n \<notin> fst ` set (map snd (metrics st))" by force
  then show ?thesis
    unfolding lookup_metric_def by (simp add: map_of_eq_None_iff)
qed

lemma lookup_metric_Some:
  assumes "table_inv st" and "(a, (n, p)) \<in> set (metrics st)"
  shows "lookup_metric st n = Some p"
proof -
  have "distinct (map fst (map snd (metrics st)))"
    using table_inv_names_distinct [OF assms(1)] by (simp add: registry_names_def comp_def)
  moreover from assms(2) have "(n, p) \<in> set (map snd (metrics st))" by force
  ultimately show ?thesis
    unfolding lookup_metric_def by (rule map_of_is_SomeI)
qed

lemma promote_front:
  assumes "table_inv st"
  shows "\<exists>a rest. metrics (promote st n)
           = (a, (n, case lookup_metric st n of None \<Rightarrow> MetricInfoPerHost_new | Some p \<Rightarrow> p)) # rest"
proof (cases "metrics_iterators st n")
  case None
  with lookup_metric_None [OF assms None] show ?thesis
    by (simp add: promote_def)
next
  case (Some it)
  with assms obtain p where m: "(it, (n, p)) \<in> set (metrics st)"
    unfolding table_inv_def by blast
  from assms have "distinct (map fst (metrics st))"
    unfolding table_inv_def by simp
  from filter_addr_single [OF this m] lookup_metric_Some [OF assms m] Some show ?thesis
    by (simp add: promote_def splice_to_front_def)
qed

lemma updateTable_row_lookup_same:
  assumes inv: "table_inv st" and acc: "accepted env r"
  shows "lookup_metric (fst (updateTable_row env [r] now (st, w) (row_name r, 0))) (row_name r)
           = Some (updateHostValue
                     (case lookup_metric st (row_name r) of
                        None \<Rightarrow> MetricInfoPerHost_new | Some p \<Rightarrow> p)
                     (row_host_name r) (row_type r) (row_value r) now)"
proof -
  from acc have pass: "row_passes env [r] (row_name r, 0)"
    by (simp add: row_passes_def accepted_def)
  from promote_front [OF inv, of "row_name r"] obtain a rest where
    m: "metrics (promote st (row_name r))
          = (a, (row_name r, case lookup_metric st (row_name r) of
                               None \<Rightarrow> MetricInfoPerHost_new | Some p \<Rightarrow> p)) # rest"
    by blast
  show ?thesis
    unfolding updateTable_row_accept [OF pass]
    by (simp add: m update_front_def lookup_metric_def)
qed

lemma feed_single:
  "feed s [(r, t)]
     = Some (updateValue (case s of None \<Rightarrow> MetricInfo_new (row_type r) | Some m \<Rightarrow> m)
               (row_value r) t)"
  by simp

lemma updateTable_row_series:
  assumes inv: "table_inv st" and acc: "accepted env r"
  shows "series_of (fst (updateTable_row env [r] now (st, w) (row_name r, 0))) n h
           = (if n = row_name r \<and> h = row_host_name r then feed (series_of st n h) [(r, now)]
              else series_of st n h)"
proof (cases "n = row_name r")
  case False
  then have "row_passes env [r] (row_name r, 0) \<longrightarrow> fst (row_name r, 0 :: nat) \<noteq> n"
    by simp
  from updateTable_row_lookup [OF inv this, of now w] False show ?thesis
    by (simp add: series_of_def)
next
  case True
  show ?thesis
    unfolding series_of_def True updateTable_row_lookup_same [OF inv acc]
    by (simp add: updateHostValue_series MetricInfoPerHost_new_def split: option.splits)
qed

lemma feed_append: "feed s (xs @ ys) = feed (feed s xs) ys"
  by (induction xs arbitrary: s) auto

lemma foldl_rows_series:
  assumes "table_inv st" and "\<forall>r \<in> set rs. accepted env r"
  shows "table_inv (fst (foldl (\<lambda>s r. updateTable_row env [r] now s (row_name r, 0)) (st, w) rs))
         \<and> series_of (fst (foldl (\<lambda>s r. updateTable_row env [r] now s (row_name r, 0)) (st, w) rs))
              n h
             = feed (series_of st n h)
                 (map (\<lambda>r. (r, now))
                    (filter (\<lambda>r. row_name r = n \<and> row_host_name r = h) rs))"
  using assms
proof (induction rs arbitrary: st w)
  case Nil
  then show ?case by simp
next
  case (Cons r rs)
  let ?f = "\<lambda>s r. updateTable_row env [r] now s (row_name r, 0)"
  obtain st1 w1 where s1: "?f (st, w) r = (st1, w1)"
    by (cases "?f (st, w) r")
  from Cons.prems(2) have acc: "accepted env r" and rest: "\<forall>r \<in> set rs. accepted env r"
    by simp_all
  have inv1: "table_inv st1"
    using updateTable_row_inv [OF Cons.prems(1), of env "[r]" now w "(row_name r, 0)"]
    by (simp add: s1)
  have ser1: "series_of st1 n h
                = (if n = row_name r \<and> h = row_host_name r then feed (series_of st n h) [(r, now)]
                   else series_of st n h)"
    using updateTable_row_series [OF Cons.prems(1) acc, of now w n h] by (simp add: s1)
  from Cons.IH [OF inv1 rest, of w1] show ?case
    by (simp add: s1 ser1)
qed

lemma sort_by_id:
  "(\<And>a b. a \<in> set ys \<Longrightarrow> b \<in> set ys \<Longrightarrow> \<not> lt a b) \<Longrightarrow> sort_by lt ys = ys"
proof (induction ys)
  case Nil
  then show ?case by (simp add: sort_by_def)
next
  case (Cons y ys)
  have "sort_by lt ys = ys"
    by (rule Cons.IH) (simp add: Cons.prems)
  moreover have "insort_by lt y ys = y # ys"
    by (rule insort_by_front) (simp add: Cons.prems)
  ultimately show ?case by (simp add: sort_by_def)
qed

lemma filter_name_sorted:
  "filter (\<lambda>r. row_name r = n \<and> Q r) (sort_by name_greater rs)
     = filter (\<lambda>r. row_name r = n \<and> Q r) rs"
proof -
  have "filter (\<lambda>r. row_name r = n \<and> Q r) (sort_by name_greater rs)
          = sort_by name_greater (filter (\<lambda>r. row_name r = n \<and> Q r) rs)"
    by (rule filter_sort_by_name)
  also have "\<dots> = filter (\<lambda>r. row_name r = n \<and> Q r) rs"
    by (rule sort_by_id) (simp add: name_greater_def)
  finally show ?thesis .
qed

lemma series_of_width [simp]:
  "series_of (st\<lparr>column_event_name_width := w\<rparr>) n h = series_of st n h"
  by (simp add: series_of_def lookup_metric_def)

lemma updateTable_series:
  assumes "table_inv st"
  shows "series_of (updateTable env st block now) n h
           = feed (series_of st n h)
               (map (\<lambda>r. (r, now))
                  (filter (\<lambda>r. accepted env r \<and> row_name r = n \<and> row_host_name r = h) block))"
proof -
  let ?rs = "sort_by name_greater (filter (accepted env) block)"
  let ?f = "\<lambda>s r. updateTable_row env [r] now s (row_name r, 0)"
  obtain st' w' where f: "foldl ?f (st, length COLUMN_EVENT_NAME) ?rs = (st', w')"
    by (cases "foldl ?f (st, length COLUMN_EVENT_NAME) ?rs")
  have acc: "\<forall>r \<in> set ?rs. accepted env r"
    by (simp add: set_sort_by)
  have "filter (\<lambda>r. row_name r = n \<and> row_host_name r = h) ?rs
          = filter (\<lambda>r. row_name r = n \<and> row_host_name r = h) (filter (accepted env) block)"
    by (rule filter_name_sorted)
  also have "\<dots> = filter (\<lambda>r. accepted env r \<and> row_name r = n \<and> row_host_name r = h) block"
    by (simp add: conj_commute conj_left_commute)
  finally have e: "filter (\<lambda>r. row_name r = n \<and> row_host_name r = h) ?rs
          = filter (\<lambda>r. accepted env r \<and> row_name r = n \<and> row_host_name r = h) block" .
  from foldl_rows_series [OF assms acc, of now "length COLUMN_EVENT_NAME" n h]
  have "series_of st' n h
          = feed (series_of st n h)
              (map (\<lambda>r. (r, now))
                 (filter (\<lambda>r. accepted env r \<and> row_name r = n \<and> row_host_name r = h) block))"
    by (simp add: f e)
  then show ?thesis
    by (simp add: updateTable_by_rows f)
qed

lemma updateTable_all_series:
  assumes "table_inv st"
  shows "series_of (updateTable_all env st ingests) n h
           = feed (series_of st n h) (samples_for env ingests n h)"
  using assms
proof (induction ingests arbitrary: st)
  case Nil
  then show ?case by (simp add: updateTable_all_def samples_for_def)
next
  case (Cons bt ingests)
  have inv1: "table_inv (updateTable env st (fst bt) (snd bt))"
    by (rule table_inv_updateTable [OF Cons.prems])
  have a: "updateTable_all env st (bt # ingests)
          = updateTable_all env (updateTable env st (fst bt) (snd bt)) ingests"
    by (simp add: updateTable_all_def)
  have b: "samples_for env (bt # ingests) n h
          = map (\<lambda>r. (r, snd bt))
              (filter (\<lambda>r. accepted env r \<and> row_name r = n \<and> row_host_name r = h) (fst bt))
            @ samples_for env ingests n h"
    by (simp add: samples_for_def)
  show ?case
    unfolding a b feed_append
    by (simp only: Cons.IH [OF inv1] updateTable_series [OF Cons.prems])
qed

lemma mtype_updateValue: "mtype (updateValue m v t) = mtype m"
  by (simp add: updateValue_def Let_def)

lemma value_updateValue:
  "snap_value (new_snapshot (updateValue m v t))
     = (case mtype m of
          INCREMENT \<Rightarrow> snap_value (new_snapshot m) + v
        | GAUGE \<Rightarrow> v
        | UNNAMED \<Rightarrow> snap_value (new_snapshot m))"
  by (simp add: updateValue_def Let_def split: Type.splits)

lemma feed_Some_value:
  "\<exists>m'. feed (Some m) xs = Some m' \<and> mtype m' = mtype m
         \<and> (mtype m = INCREMENT \<longrightarrow>
              snap_value (new_snapshot m')
                = snap_value (new_snapshot m) + (\<Sum>x\<leftarrow>xs. row_value (fst x)))
         \<and> (mtype m = GAUGE \<longrightarrow>
              snap_value (new_snapshot m')
                = (if xs = [] then snap_value (new_snapshot m) else row_value (fst (last xs))))"
proof (induction xs arbitrary: m)
  case Nil
  then show ?case by simp
next
  case (Cons x xs)
  obtain r t where x: "x = (r, t)" by (cases x)
  from Cons.IH [of "updateValue m (row_value r) t"] show ?case
    by (auto simp: x mtype_updateValue value_updateValue add.assoc)
qed

lemma feed_None_value:
  assumes "xs \<noteq> []" and "feed None xs = Some m"
  shows "mtype m = row_type (fst (hd xs))
         \<and> (mtype m = INCREMENT \<longrightarrow>
              snap_value (new_snapshot m) = (\<Sum>x\<leftarrow>xs. row_value (fst x)))
         \<and> (mtype m = GAUGE \<longrightarrow> snap_value (new_snapshot m) = row_value (fst (last xs)))"
proof -
  from assms(1) obtain r t ys where xs: "xs = (r, t) # ys"
    by (cases xs) auto
  define m1 where "m1 = updateValue (MetricInfo_new (row_type r)) (row_value r) t"
  have t1: "mtype m1 = row_type r"
    by (simp add: m1_def mtype_updateValue MetricInfo_new_def)
  have v1: "mtype m1 = INCREMENT \<longrightarrow> snap_value (new_snapshot m1) = row_value r"
    "mtype m1 = GAUGE \<longrightarrow> snap_value (new_snapshot m1) = row_value r"
    by (simp_all add: m1_def mtype_updateValue value_updateValue MetricInfo_new_def Snapshot0_def)
  have f: "feed None xs = feed (Some m1) ys"
    by (simp add: xs m1_def)
  from feed_Some_value [of m1 ys] obtain m' where
    m': "feed (Some m1) ys = Some m'" "mtype m' = mtype m1"
    "mtype m1 = INCREMENT \<longrightarrow>
       snap_value (new_snapshot m') = snap_value (new_snapshot m1) + (\<Sum>x\<leftarrow>ys. row_value (fst x))"
    "mtype m1 = GAUGE \<longrightarrow>
       snap_value (new_snapshot m')
         = (if ys = [] then snap_value (new_snapshot m1) else row_value (fst (last ys)))"
    by blast
  from assms(2) f m'(1) have mm: "m = m'" by simp
  have a: "mtype m = row_type (fst (hd xs))"
    by (simp add: mm m'(2) t1 xs)
  have b: "mtype m = INCREMENT \<longrightarrow>
              snap_value (new_snapshot m) = (\<Sum>x\<leftarrow>xs. row_value (fst x))"
    using m'(3) v1(1) by (simp add: mm m'(2) xs)
  have c: "mtype m = GAUGE \<longrightarrow> snap_value (new_snapshot m) = row_value (fst (last xs))"
    using m'(4) v1(2) by (simp add: mm m'(2) xs)
  from a b c show ?thesis by blast
qed

lemma hosts_inv_new: "hosts_inv ProgressTable_new"
  by (simp add: hosts_inv_def ProgressTable_new_def)

lemma hosts_inv_resetTable: "hosts_inv (resetTable st)"
  by (simp add: hosts_inv_def resetTable_def)

lemma hosts_inv_promote: "hosts_inv st \<Longrightarrow> hosts_inv (promote st n)"
  by (auto simp: hosts_inv_def promote_def set_splice_to_front MetricInfoPerHost_new_def
      split: option.splits)

lemma distinct_updateHostValue:
  "distinct (map fst (host_to_metric p))
     \<Longrightarrow> distinct (map fst (host_to_metric (updateHostValue p h t v now)))"
  by (simp add: updateHostValue_def Let_def distinct_update)

lemma hosts_inv_update_front:
  "hosts_inv st \<Longrightarrow> hosts_inv (st\<lparr>metrics := update_front (metrics st) h t v now\<rparr>)"
  by (cases "metrics st") (auto simp: hosts_inv_def update_front_def distinct_updateHostValue)

lemma hosts_inv_updateTable_row:
  assumes "hosts_inv st"
  shows "hosts_inv (fst (updateTable_row env block now (st, w) p))"
proof (cases "row_passes env block p")
  case False
  with assms show ?thesis by (simp add: updateTable_row_skip)
next
  case True
  obtain name i where p: "p = (name, i)" by (cases p)
  show ?thesis
    unfolding p updateTable_row_accept [OF True [unfolded p]] fst_conv
    by (rule hosts_inv_update_front [OF hosts_inv_promote [OF assms]])
qed

lemma hosts_inv_foldl:
  "hosts_inv st \<Longrightarrow> hosts_inv (fst (foldl (updateTable_row env block now) (st, w) ps))"
proof (induction ps arbitrary: st w)
  case Nil
  then show ?case by simp
next
  case (Cons p ps)
  obtain st1 w1 where s1: "updateTable_row env block now (st, w) p = (st1, w1)"
    by (cases "updateTable_row env block now (st, w) p")
  have "hosts_inv st1"
    using hosts_inv_updateTable_row [OF Cons.prems, of env block now w p] by (simp add: s1)
  from Cons.IH [OF this, of w1] show ?case by (simp add: s1)
qed

lemma hosts_inv_updateTable:
  assumes "hosts_inv st"
  shows "hosts_inv (updateTable env st block now)"
proof -
  obtain st' w' where f: "foldl (updateTable_row env block now) (st, length COLUMN_EVENT_NAME)
             (sort_by name_row_less (name_and_row_num_list block)) = (st', w')"
    by (cases "foldl (updateTable_row env block now) (st, length COLUMN_EVENT_NAME)
             (sort_by name_row_less (name_and_row_num_list block))")
  from hosts_inv_foldl [OF assms, of env block now "length COLUMN_EVENT_NAME"
      "sort_by name_row_less (name_and_row_num_list block)"]
  have "hosts_inv st'" by (simp add: f)
  then show ?thesis
    by (simp add: updateTable_def f hosts_inv_def)
qed

lemma hosts_inv_updateTable_all:
  "hosts_inv st \<Longrightarrow> hosts_inv (updateTable_all env st ingests)"
  unfolding updateTable_all_def
  by (induction ingests arbitrary: st) (simp_all add: hosts_inv_updateTable)

lemma series_of_entry:
  assumes "table_inv st" and "nd \<in> set (metrics st)"
  shows "map_of (host_to_metric (snd (snd nd))) h = series_of st (fst (snd nd)) h"
proof -
  obtain a n p where nd: "nd = (a, (n, p))" by (cases nd) auto
  from lookup_metric_Some [OF assms(1) assms(2) [unfolded nd]] show ?thesis
    by (simp add: series_of_def nd)
qed

lemma writeFinalTable_narrow:
  "terminal_width < column_event_name_width st + COLUMN_VALUE_WIDTH
     \<Longrightarrow> writeFinalTable env st terminal_width = Inr []"
  by (simp add: writeFinalTable_def)

text \<open>
  C9, as the code has it. On a terminal narrower than the name and value columns
  together \<^verbatim>\<open>writeFinalTable\<close> writes nothing, whatever the table holds. Take a
  consistent table whose names are in the catalog (a new table, or one after
  \<^verbatim>\<open>resetTable\<close>) and any ingests. The registry then holds the names it had and every
  name accepted by one of the ingests, each once. If the terminal is at least as wide
  as the two columns, \<^verbatim>\<open>writeFinalTable\<close> throws nothing and writes nothing when
  there is no metric, and otherwise the header and one line for every entry of the
  registry, in its order, with the name and the formatted value of the entry. No time
  enters: an entry is written whether it is fresh or not. The value of an entry is the
  sum over its hosts, each once, of the latest value of the host's series; the series
  of a name and host is the one that the accepted rows for that name and host, in the
  order of arrival, have built; and a series built from nothing by such rows has the
  type of the first row, and as latest value the sum of the row values when that type
  is \<open>INCREMENT\<close> and the value of the last row when it is \<open>GAUGE\<close>.
\<close>

theorem final_table_complete:
  "(terminal_width < column_event_name_width st' + COLUMN_VALUE_WIDTH
      \<longrightarrow> writeFinalTable env st' terminal_width = Inr [])
   \<and> (table_inv st0 \<and> hosts_inv st0
       \<and> (\<forall>n \<in> set (registry_names st0). getEventNameToEvent env n \<noteq> None) \<longrightarrow>
      (let st = updateTable_all env st0 ingests in
         set (registry_names st)
           = set (registry_names st0) \<union> (\<Union>bt \<in> set ingests. set (accepted_names env (fst bt)))
         \<and> distinct (registry_names st)
         \<and> (column_event_name_width st + COLUMN_VALUE_WIDTH \<le> terminal_width \<longrightarrow>
              writeFinalTable env st terminal_width
                = Inr (if metrics st = [] then []
                       else final_header (column_event_name_width st)
                            @ concat (map (final_row env (column_event_name_width st))
                                        (metrics st))))
         \<and> (\<forall>nd \<in> set (metrics st).
               distinct (map fst (host_to_metric (snd (snd nd))))
               \<and> getSummaryValue (snd (snd nd))
                   = (\<Sum>hm\<leftarrow>host_to_metric (snd (snd nd)).
                        real_of_int (sint (snap_value (new_snapshot (snd hm)))))
               \<and> (\<forall>h. map_of (host_to_metric (snd (snd nd))) h
                         = series_of st (fst (snd nd)) h))
         \<and> (\<forall>n h. series_of st n h = feed (series_of st0 n h) (samples_for env ingests n h))))
   \<and> (xs \<noteq> [] \<and> feed None xs = Some m \<longrightarrow>
        mtype m = row_type (fst (hd xs))
        \<and> (mtype m = INCREMENT \<longrightarrow>
             snap_value (new_snapshot m) = (\<Sum>x\<leftarrow>xs. row_value (fst x)))
        \<and> (mtype m = GAUGE \<longrightarrow> snap_value (new_snapshot m) = row_value (fst (last xs))))"
proof (intro conjI impI)
  assume "terminal_width < column_event_name_width st' + COLUMN_VALUE_WIDTH"
  then show "writeFinalTable env st' terminal_width = Inr []"
    by (rule writeFinalTable_narrow)
next
  assume "xs \<noteq> [] \<and> feed None xs = Some m"
  then have a: "xs \<noteq> []" and b: "feed None xs = Some m" by simp_all
  from feed_None_value [OF a b]
  show "mtype m = row_type (fst (hd xs))" by simp
  assume "mtype m = INCREMENT"
  with feed_None_value [OF a b]
  show "snap_value (new_snapshot m) = (\<Sum>x\<leftarrow>xs. row_value (fst x))" by simp
next
  assume "xs \<noteq> [] \<and> feed None xs = Some m"
  then have a: "xs \<noteq> []" and b: "feed None xs = Some m" by simp_all
  assume "mtype m = GAUGE"
  with feed_None_value [OF a b]
  show "snap_value (new_snapshot m) = row_value (fst (last xs))" by simp
next
  assume h: "table_inv st0 \<and> hosts_inv st0
       \<and> (\<forall>n \<in> set (registry_names st0). getEventNameToEvent env n \<noteq> None)"
  let ?st = "updateTable_all env st0 ingests"
  from h have inv0: "table_inv st0" and hosts0: "hosts_inv st0"
    and cat0: "\<forall>n \<in> set (registry_names st0). getEventNameToEvent env n \<noteq> None"
    by simp_all
  have inv: "table_inv ?st"
    by (rule table_inv_updateTable_all [OF inv0])
  have hosts: "hosts_inv ?st"
    by (rule hosts_inv_updateTable_all [OF hosts0])
  have names: "set (registry_names ?st)
       = set (registry_names st0) \<union> (\<Union>bt \<in> set ingests. set (accepted_names env (fst bt)))"
    by (rule updateTable_all_names_set [OF inv0])
  have d: "distinct (registry_names ?st)"
    by (rule table_inv_names_distinct [OF inv])
  have "\<forall>n \<in> set (registry_names ?st). getEventNameToEvent env n \<noteq> None"
    unfolding names using cat0 by (auto dest: accepted_names_catalog)
  then have cat: "\<forall>nd \<in> set (metrics ?st). getEventNameToEvent env (fst (snd nd)) \<noteq> None"
    by (simp add: registry_names_def)
  have w: "column_event_name_width ?st + COLUMN_VALUE_WIDTH \<le> terminal_width \<longrightarrow>
         writeFinalTable env ?st terminal_width
         = Inr (if metrics ?st = [] then []
                else final_header (column_event_name_width ?st)
                     @ concat (map (final_row env (column_event_name_width ?st)) (metrics ?st)))"
    by (simp add: writeFinalTable_def writeFinalTable_rows_all [OF cat] final_header_eq Let_def)
  have e: "\<forall>nd \<in> set (metrics ?st).
               distinct (map fst (host_to_metric (snd (snd nd))))
               \<and> getSummaryValue (snd (snd nd))
                   = (\<Sum>hm\<leftarrow>host_to_metric (snd (snd nd)).
                        real_of_int (sint (snap_value (new_snapshot (snd hm)))))
               \<and> (\<forall>h. map_of (host_to_metric (snd (snd nd))) h
                         = series_of ?st (fst (snd nd)) h)"
    using hosts series_of_entry [OF inv]
    by (simp add: hosts_inv_def getSummaryValue_sum)
  have s: "\<forall>n h. series_of ?st n h = feed (series_of st0 n h) (samples_for env ingests n h)"
    by (simp add: updateTable_all_series [OF inv0])
  from names d w e s
  show "(let st = updateTable_all env st0 ingests in
         set (registry_names st)
           = set (registry_names st0) \<union> (\<Union>bt \<in> set ingests. set (accepted_names env (fst bt)))
         \<and> distinct (registry_names st)
         \<and> (column_event_name_width st + COLUMN_VALUE_WIDTH \<le> terminal_width \<longrightarrow>
              writeFinalTable env st terminal_width
                = Inr (if metrics st = [] then []
                       else final_header (column_event_name_width st)
                            @ concat (map (final_row env (column_event_name_width st))
                                        (metrics st))))
         \<and> (\<forall>nd \<in> set (metrics st).
               distinct (map fst (host_to_metric (snd (snd nd))))
               \<and> getSummaryValue (snd (snd nd))
                   = (\<Sum>hm\<leftarrow>host_to_metric (snd (snd nd)).
                        real_of_int (sint (snap_value (new_snapshot (snd hm)))))
               \<and> (\<forall>h. map_of (host_to_metric (snd (snd nd))) h
                         = series_of st (fst (snd nd)) h))
         \<and> (\<forall>n h. series_of st n h = feed (series_of st0 n h) (samples_for env ingests n h)))"
    unfolding Let_def by blast
qed

section \<open>The examples, evaluated\<close>

lemmas ingest_eval =
  updateTable_all_def updateTable_def sort_by_def name_and_row_num_list_def updateTable_row_def
  example_catalog example_row_def THREAD_GROUP_ID_def ProgressTable_new_def update_front_def
  splice_to_front_def promote_def Let_def COLUMN_EVENT_NAME_def updateHostValue_def
  updateValue_def MetricInfo_new_def MetricInfoPerHost_new_def Snapshot0_def name_row_less_def

lemma example_state:
  "updateTable_all example_env ProgressTable_new example_ingests
   = \<lparr>metrics =
        [(1, ''B'',
          \<lparr>host_to_metric =
             [(''localhost'',
               \<lparr>mtype = INCREMENT,
                  prev_shapshot = \<lparr>snap_value = 0, snap_time = 4\<rparr>,
                  cur_shapshot = \<lparr>snap_value = 3, snap_time = 5\<rparr>,
                  new_snapshot = \<lparr>snap_value = 3, snap_time = 5\<rparr>,
                  update_time = 5\<rparr>)],
           max_progress = 0\<rparr>),
         (0, ''NetworkReceiveBytes'',
          \<lparr>host_to_metric =
             [(''localhost'',
               \<lparr>mtype = INCREMENT,
                  prev_shapshot = \<lparr>snap_value = 0, snap_time = 0\<rparr>,
                  cur_shapshot = \<lparr>snap_value = 4096, snap_time = 1\<rparr>,
                  new_snapshot = \<lparr>snap_value = 4096, snap_time = 1\<rparr>,
                  update_time = 1\<rparr>)],
           max_progress = 0\<rparr>)],
      metrics_iterators = [''NetworkReceiveBytes'' \<mapsto> 0, ''B'' \<mapsto> 1],
      column_event_name_width = 11,
      nodes_allocated = 2\<rparr>"
  by (simp add: example_ingests_def ingest_eval)

lemma format_size_t_4096: "format_size_t 4096 = ''4096''"
  by code_simp
lemma format_size_t_3: "format_size_t 3 = ''3''"
  by code_simp
lemma example_env_sel:
  "getValueType example_env event = (if event = 2 then Bytes else Number)"
  "formatReadableQuantity example_env v precision = format_size_t (nat \<lfloor>v\<rfloor>)"
  "formatReadableSizeWithDecimalSuffix example_env v = format_size_t (nat \<lfloor>v\<rfloor>) @ '' B''"
  "formatReadableTime example_env v = format_size_t (nat \<lfloor>v\<rfloor>) @ '' ns''"
  "getDocumentation example_env event = ''Documentation of the event''"
  by (simp_all add: example_env_def)


subsection \<open>The live render keeps the table consistent\<close>

lemma writeTable_rows_nodes:
  "writeTable_rows env nw dw now ms message = Inr (message', ms')
     \<Longrightarrow> map fst ms' = map fst ms \<and> map (\<lambda>nd. fst (snd nd)) ms' = map (\<lambda>nd. fst (snd nd)) ms"
proof (induction ms arbitrary: message message' ms')
  case Nil
  then show ?case by simp
next
  case (Cons nd ms)
  obtain it name info where nd: "nd = (it, (name, info))" by (cases nd) auto
  from Cons.prems obtain m'' rest' info' where
    r: "writeTable_rows env nw dw now ms m'' = Inr (message', rest')"
    and ms': "ms' = (it, (name, info')) # rest'"
    unfolding nd
    by (auto simp: Let_def split: if_splits option.splits sum.splits prod.splits)
  from Cons.IH [OF r] ms' show ?case
    by (simp add: nd)
qed

lemma table_inv_metrics_cong:
  assumes "table_inv st" and "map fst ms = map fst (metrics st)"
    and "map (\<lambda>nd. fst (snd nd)) ms = map (\<lambda>nd. fst (snd nd)) (metrics st)"
  shows "table_inv (st\<lparr>metrics := ms\<rparr>)"
proof -
  have "map (\<lambda>nd. (fst nd, fst (snd nd))) xs = zip (map fst xs) (map (\<lambda>nd. fst (snd nd)) xs)"
    for xs :: "(iterator \<times> Metric) list"
    by (induction xs) simp_all
  then have z: "map (\<lambda>nd. (fst nd, fst (snd nd))) ms
                  = map (\<lambda>nd. (fst nd, fst (snd nd))) (metrics st)"
    by (simp only: assms(2,3))
  have m: "(\<exists>info. (it, (n, info)) \<in> set ms) \<longleftrightarrow> (\<exists>info. (it, (n, info)) \<in> set (metrics st))" for it n
  proof -
    have "(\<exists>info. (it, (n, info)) \<in> set xs) \<longleftrightarrow> (it, n) \<in> set (map (\<lambda>nd. (fst nd, fst (snd nd))) xs)"
      for xs :: "(iterator \<times> Metric) list"
      by force
    then show ?thesis by (simp only: z)
  qed
  have f: "fst ` set ms = fst ` set (metrics st)"
    using assms(2) by (metis set_map)
  from assms(1) show ?thesis
    unfolding table_inv_def
    by (simp add: assms(2) m) (metis f imageE imageI)
qed

lemma table_inv_writeTable:
  assumes "table_inv st"
    and "writeTable env st terminal_width elapsed_sec show_table toggle_enabled = Inr (out, st')"
  shows "table_inv st'"
proof -
  show ?thesis
    using assms writeTable_rows_nodes table_inv_metrics_cong [OF assms(1)]
    by (fastforce simp: writeTable_def Let_def split: if_splits sum.splits prod.splits)
qed

subsection \<open>The claims on the examples\<close>

lemma example_state_hosts:
  "updateTable_all example_env ProgressTable_new example_ingests_hosts
   = \<lparr>metrics =
        [(1, ''B'',
          \<lparr>host_to_metric =
             [(''localhost'',
               \<lparr>mtype = INCREMENT,
                  prev_shapshot = \<lparr>snap_value = 3, snap_time = 1\<rparr>,
                  cur_shapshot = \<lparr>snap_value = 5, snap_time = 2\<rparr>,
                  new_snapshot = \<lparr>snap_value = 5, snap_time = 2\<rparr>,
                  update_time = 2\<rparr>),
              (''remote'',
               \<lparr>mtype = INCREMENT,
                  prev_shapshot = \<lparr>snap_value = 0, snap_time = 8\<rparr>,
                  cur_shapshot = \<lparr>snap_value = 10, snap_time = 9\<rparr>,
                  new_snapshot = \<lparr>snap_value = 10, snap_time = 9\<rparr>,
                  update_time = 9\<rparr>)],
           max_progress = 0\<rparr>),
         (2, ''A'',
          \<lparr>host_to_metric =
             [(''localhost'',
               \<lparr>mtype = GAUGE,
                  prev_shapshot = \<lparr>snap_value = 10, snap_time = 1\<rparr>,
                  cur_shapshot = \<lparr>snap_value = 3, snap_time = 2\<rparr>,
                  new_snapshot = \<lparr>snap_value = 3, snap_time = 2\<rparr>,
                  update_time = 2\<rparr>)],
           max_progress = 0\<rparr>),
         (0, ''NetworkReceiveBytes'',
          \<lparr>host_to_metric =
             [(''localhost'',
               \<lparr>mtype = INCREMENT,
                  prev_shapshot = \<lparr>snap_value = 4096, snap_time = 1\<rparr>,
                  cur_shapshot = \<lparr>snap_value = 4100, snap_time = 2\<rparr>,
                  new_snapshot = \<lparr>snap_value = 4100, snap_time = 2\<rparr>,
                  update_time = 2\<rparr>),
              (''remote'',
               \<lparr>mtype = INCREMENT,
                  prev_shapshot = \<lparr>snap_value = 0, snap_time = 0\<rparr>,
                  cur_shapshot = \<lparr>snap_value = 1000, snap_time = 1\<rparr>,
                  new_snapshot = \<lparr>snap_value = 1000, snap_time = 1\<rparr>,
                  update_time = 1\<rparr>)],
           max_progress = 0\<rparr>)],
      metrics_iterators = [''NetworkReceiveBytes'' \<mapsto> 0, ''B'' \<mapsto> 1, ''A'' \<mapsto> 2],
      column_event_name_width = 11,
      nodes_allocated = 3\<rparr>"
  by (simp add: example_ingests_hosts_def ingest_eval) (simp add: numeral_2_eq_2)

lemma format_size_t_15: "format_size_t 15 = ''15''"
  by code_simp

lemma format_size_t_5100: "format_size_t 5100 = ''5100''"
  by code_simp

theorem final_table_complete_witness:
  "registry_names (updateTable_all example_env ProgressTable_new example_ingests_hosts)
     = [''B'', ''A'', ''NetworkReceiveBytes'']
   \<and> \<not> PerHost_isFresh
         (the (lookup_metric (updateTable_all example_env ProgressTable_new example_ingests_hosts)
                 ''NetworkReceiveBytes'')) 9
   \<and> map (\<lambda>x. (row_value (fst x), snd x))
         (samples_for example_env example_ingests_hosts ''NetworkReceiveBytes'' ''localhost'')
       = [(4096, 1), (4, 2)]
   \<and> map_option (\<lambda>m. snap_value (new_snapshot m))
         (series_of (updateTable_all example_env ProgressTable_new example_ingests_hosts)
            ''NetworkReceiveBytes'' ''localhost'') = Some 4100
   \<and> map_option (\<lambda>m. snap_value (new_snapshot m))
         (series_of (updateTable_all example_env ProgressTable_new example_ingests_hosts)
            ''NetworkReceiveBytes'' ''remote'') = Some 1000
   \<and> map_option (\<lambda>m. snap_value (new_snapshot m))
         (series_of (updateTable_all example_env ProgressTable_new example_ingests_hosts)
            ''A'' ''localhost'') = Some 3
   \<and> getSummaryValue
         (the (lookup_metric (updateTable_all example_env ProgressTable_new example_ingests_hosts)
                 ''NetworkReceiveBytes'')) = 5100
   \<and> writeFinalTable example_env
         (updateTable_all example_env ProgressTable_new example_ingests_hosts) 80
       = Inr (NL # ''Event name '' @ ''Value'' @ replicate 15 CHR '' '' @
              NL # ''B'' @ replicate 10 CHR '' '' @ ''15'' @ replicate 18 CHR '' '' @
              NL # ''A'' @ replicate 10 CHR '' '' @ ''3'' @ replicate 19 CHR '' '' @
              NL # ''NetworkReceiveBytes '' @ ''5100 B'' @ replicate 14 CHR '' '')
   \<and> writeFinalTable example_env
         (updateTable_all example_env ProgressTable_new example_ingests_hosts) 30 = Inr []"
proof -
  let ?st = "updateTable_all example_env ProgressTable_new example_ingests_hosts"
  have c: "\<forall>n \<in> set (registry_names ProgressTable_new). getEventNameToEvent example_env n \<noteq> None"
    by (simp add: registry_names_new)
  have pre: "table_inv ProgressTable_new \<and> hosts_inv ProgressTable_new
       \<and> (\<forall>n \<in> set (registry_names ProgressTable_new). getEventNameToEvent example_env n \<noteq> None)"
    using table_inv_new hosts_inv_new c by simp
  have wide: "column_event_name_width ?st + COLUMN_VALUE_WIDTH \<le> 80"
    by (simp add: example_state_hosts COLUMN_VALUE_WIDTH_def)
  have narrow: "30 < column_event_name_width ?st + COLUMN_VALUE_WIDTH"
    by (simp add: example_state_hosts COLUMN_VALUE_WIDTH_def)
  note T = final_table_complete [where env = example_env and ?st0.0 = ProgressTable_new
      and ingests = example_ingests_hosts and terminal_width = 80]
  from T pre wide
  have out: "writeFinalTable example_env ?st 80
        = Inr (if metrics ?st = [] then []
               else final_header (column_event_name_width ?st)
                    @ concat (map (final_row example_env (column_event_name_width ?st))
                        (metrics ?st)))"
    unfolding Let_def by blast
  from T pre
  have ser: "\<And>n h. series_of ?st n h
                = feed (series_of ProgressTable_new n h)
                    (samples_for example_env example_ingests_hosts n h)"
    unfolding Let_def by blast
  from final_table_complete [where st' = ?st and terminal_width = 30 and env = example_env] narrow
  have gated: "writeFinalTable example_env ?st 30 = Inr []"
    by blast
  have s0: "series_of ProgressTable_new n h = None" for n h
    by (simp add: series_of_def lookup_metric_def ProgressTable_new_def)
  have smp: "samples_for example_env example_ingests_hosts ''NetworkReceiveBytes'' ''localhost''
               = [(example_row ''NetworkReceiveBytes'' 4096, 1),
                  (example_row ''NetworkReceiveBytes'' 4, 2)]"
    by (simp add: samples_for_def example_ingests_hosts_def accepted_def example_catalog
        example_row_def THREAD_GROUP_ID_def)
  have v1: "map_option (\<lambda>m. snap_value (new_snapshot m))
              (series_of ?st ''NetworkReceiveBytes'' ''localhost'') = Some 4100"
    by (simp add: ser s0 smp example_row_def updateValue_def MetricInfo_new_def Snapshot0_def
        Let_def)
  have names: "registry_names ?st = [''B'', ''A'', ''NetworkReceiveBytes'']"
    by (simp add: example_state_hosts registry_names_def)
  have rest: "\<not> PerHost_isFresh (the (lookup_metric ?st ''NetworkReceiveBytes'')) 9
     \<and> map_option (\<lambda>m. snap_value (new_snapshot m))
         (series_of ?st ''NetworkReceiveBytes'' ''remote'') = Some 1000
     \<and> map_option (\<lambda>m. snap_value (new_snapshot m)) (series_of ?st ''A'' ''localhost'') = Some 3
     \<and> getSummaryValue (the (lookup_metric ?st ''NetworkReceiveBytes'')) = 5100"
    by (simp add: example_state_hosts series_of_def lookup_metric_def PerHost_isFresh_def
        isFresh_def freshness_threshold_def getSummaryValue_def getValue_def)
  have shown: "writeFinalTable example_env ?st 80
       = Inr (NL # ''Event name '' @ ''Value'' @ replicate 15 CHR '' '' @
              NL # ''B'' @ replicate 10 CHR '' '' @ ''15'' @ replicate 18 CHR '' '' @
              NL # ''A'' @ replicate 10 CHR '' '' @ ''3'' @ replicate 19 CHR '' '' @
              NL # ''NetworkReceiveBytes '' @ ''5100 B'' @ replicate 14 CHR '' '')"
    unfolding out
    by (simp add: example_state_hosts final_header_def final_row_def writeWithWidth_def
        example_catalog example_env_sel formatReadableValue_def getSummaryValue_def getValue_def
        COLUMN_VALUE_WIDTH_def COLUMN_EVENT_NAME_def COLUMN_VALUE_def format_size_t_15
        format_size_t_3 format_size_t_5100)
  from names rest smp v1 shown gated show ?thesis
    by (simp add: example_row_def)
qed

text \<open>
  C9, as the specification words it: the final table would list every recorded metric.
  On a terminal of 30 columns, narrower than the name column (11) and the value
  column (20) together, it writes nothing although two metrics are recorded.
\<close>

theorem final_table_narrow_terminal:
  "registry_names (updateTable_all example_env ProgressTable_new example_ingests)
     = [''B'', ''NetworkReceiveBytes'']
   \<and> writeFinalTable example_env
       (updateTable_all example_env ProgressTable_new example_ingests) 30 = Inr []"
  by (simp add: example_state registry_names_def writeFinalTable_def COLUMN_VALUE_WIDTH_def)

text \<open>
  The live render of the example at time 5 on a terminal of 51 columns, the least
  width that is not gated: the header, the one fresh metric (\<open>B\<close>, coloured by the
  running maximum 0 read before the rate 3 is stored) and the cursor moved up two
  lines. \<open>NetworkReceiveBytes\<close>, last updated at time 1, is not drawn.
\<close>

lemma format_size_t_2: "format_size_t (Suc (Suc 0)) = ''2''"
proof -
  have "format_size_t 2 = ''2''" by code_simp
  then show ?thesis by (simp add: numeral_2_eq_2)
qed

lemma example_live:
  "writeTable example_env (updateTable_all example_env ProgressTable_new example_ingests)
       51 5 True False =
    Inr (HIDE_CURSOR @ NL # ''Event name '' @ ''Value'' @ replicate 15 CHR '' '' @ ''Progress'' @ replicate 12 CHR '' ''
          @ CLEAR_TO_END_OF_LINE
          @ NL # ''B'' @ replicate 10 CHR '' '' @ ''3'' @ replicate 19 CHR '' ''
          @ ESC # ''[38;5;236m'' @ ''3/s'' @ replicate 17 CHR '' '' @ RESET_COLOR @ CLEAR_TO_END_OF_LINE
          @ ESC # ''[2A'',
         (updateTable_all example_env ProgressTable_new example_ingests)
           \<lparr>metrics := map (\<lambda>nd. if fst (snd nd) = ''B'' then (fst nd, (fst (snd nd), (snd (snd nd))\<lparr>max_progress := 3\<rparr>)) else nd)
               (metrics (updateTable_all example_env ProgressTable_new example_ingests))\<rparr>)"
  by (simp add: example_state writeTable_def COLUMN_VALUE_WIDTH_def COLUMN_PROGRESS_WIDTH_def
     getColumnDocumentationWidth_def COLUMN_DOCUMENTATION_MIN_WIDTH_def COLUMN_DOCUMENTATION_NAME_def
     PerHost_isFresh_def isFresh_def freshness_threshold_def example_catalog example_env_sel
     getSummaryProgress_def calculateProgress_def progress_color_def getMaxProgress_def
     setColorForProgress_def  formatReadableValue_def getSummaryValue_def getValue_def format_size_t_3 format_size_t_2
     getFreshMetricsCount_def moveUpNLines_def Let_def writeWithWidth_def COLUMN_EVENT_NAME_def
     COLUMN_VALUE_def COLUMN_PROGRESS_def progress_colors_def)
theorem render_noop_witness:
  "metrics (updateTable_all example_env ProgressTable_new example_ingests) \<noteq> []
   \<and> 50 < column_event_name_width (updateTable_all example_env ProgressTable_new example_ingests)
            + COLUMN_VALUE_WIDTH + COLUMN_PROGRESS_WIDTH
   \<and> writeTable example_env (updateTable_all example_env ProgressTable_new example_ingests)
         50 5 True False
       = Inr ([], updateTable_all example_env ProgressTable_new example_ingests)
   \<and> writeTable example_env ProgressTable_new 200 5 True True = Inr ([], ProgressTable_new)
   \<and> writeTable example_env (updateTable_all example_env ProgressTable_new example_ingests)
         51 5 True False
       \<noteq> Inr ([], updateTable_all example_env ProgressTable_new example_ingests)"
proof -
  let ?st = "updateTable_all example_env ProgressTable_new example_ingests"
  have a: "metrics ?st \<noteq> []"
    by (simp add: example_state)
  have b: "50 < column_event_name_width ?st + COLUMN_VALUE_WIDTH + COLUMN_PROGRESS_WIDTH"
    by (simp add: example_state COLUMN_VALUE_WIDTH_def COLUMN_PROGRESS_WIDTH_def)
  from b have c: "writeTable example_env ?st 50 5 True False = Inr ([], ?st)"
    using render_noop [where st = ?st and terminal_width = 50 and env = example_env
        and elapsed_sec = 5 and toggle_enabled = False]
    by simp
  have d: "writeTable example_env ProgressTable_new 200 5 True True = Inr ([], ProgressTable_new)"
    using render_noop [where st = ProgressTable_new and terminal_width = 200
        and env = example_env and elapsed_sec = 5 and toggle_enabled = True]
    by (simp add: ProgressTable_new_def)
  have e: "writeTable example_env ?st 51 5 True False \<noteq> Inr ([], ?st)"
    by (simp add: example_live)
  from a b c d e show ?thesis by simp
qed

theorem discarded_rows_witness:
  "updateTable example_env ProgressTable_new [example_row ''B'' 5] 1
     = updateTable example_env ProgressTable_new example_block 1
   \<and> discarded example_env (example_block ! 0)
   \<and> updateTable_row example_env example_block 1 (ProgressTable_new, 10) (''A'', 0)
       = (ProgressTable_new, 10)
   \<and> metrics (updateTable example_env ProgressTable_new
                 [example_row ''A'' 0, example_row ''Unknown'' 4] 1) = []
   \<and> table_inv ProgressTable_new
   \<and> lookup_metric (updateTable example_env ProgressTable_new example_block 1) ''A'' = None
   \<and> metrics_iterators (updateTable example_env ProgressTable_new example_block 1) ''A'' = None
   \<and> registry_names (updateTable example_env ProgressTable_new example_block 1) = [''B'']"
proof -
  have d0: "discarded example_env (example_block ! 0)"
    by (simp add: example_block_def discarded_def example_row_def)
  have a: "updateTable_row example_env example_block 1 (ProgressTable_new, 10) (''A'', 0)
       = (ProgressTable_new, 10)"
    using d0 discarded_rows [where env = example_env and block = example_block and row_num = 0
        and s = "(ProgressTable_new, 10)" and now = 1]
    by (simp add: example_block_def example_row_name)
  have d1: "\<forall>r \<in> set [example_row ''A'' 0, example_row ''Unknown'' 4]. discarded example_env r"
    by (simp add: discarded_def example_row_def example_catalog)
  have b: "metrics (updateTable example_env ProgressTable_new
                 [example_row ''A'' 0, example_row ''Unknown'' 4] 1) = []"
    using d1 discarded_rows [where env = example_env and st = ProgressTable_new and now = 1
        and block = "[example_row ''A'' 0, example_row ''Unknown'' 4]"]
    by (simp add: ProgressTable_new_def)
  have d2: "\<forall>r \<in> set example_block. row_name r = ''A'' \<longrightarrow> discarded example_env r"
    by (simp add: example_block_def discarded_def example_row_def THREAD_GROUP_ID_def)
  have c: "lookup_metric (updateTable example_env ProgressTable_new example_block 1) ''A'' = None
     \<and> metrics_iterators (updateTable example_env ProgressTable_new example_block 1) ''A'' = None"
    using d2 table_inv_new discarded_rows [where env = example_env and st = ProgressTable_new
        and now = 1 and block = example_block and n = "''A''"]
    by (simp add: lookup_metric_def ProgressTable_new_def)
  have e: "registry_names (updateTable example_env ProgressTable_new example_block 1) = [''B'']"
    by (simp add: example_block_def registry_names_def ingest_eval)
  have f: "filter (\<lambda>r. \<not> discarded example_env r) example_block = [example_row ''B'' 5]"
    by (simp add: example_block_def discarded_def example_row_def example_catalog
        THREAD_GROUP_ID_def)
  have g: "updateTable example_env ProgressTable_new [example_row ''B'' 5] 1
     = updateTable example_env ProgressTable_new example_block 1"
    using discarded_rows [where env = example_env and st = ProgressTable_new and now = 1
        and block = example_block]
    by (simp only: f)
  from d0 a b c e g table_inv_new show ?thesis by simp
qed

end
